theory Spec2Isabelle
  imports Main "HOL-Library.Multiset"
begin

section \<open>Python containers\<close>

text \<open>
  The index of \<^verbatim>\<open>index.py\<close> is built from Python dictionaries, which enumerate
  their items in insertion order. A dictionary is therefore an association list whose
  keys are pairwise distinct; assigning to a key that is present keeps its position,
  assigning to a new key puts it last, and popping a key removes it.
\<close>

datatype error = AssertionError | KeyError

type_synonym ('k, 'b) dict = "('k \<times> 'b) list"

definition dict_keys :: "('k, 'b) dict \<Rightarrow> 'k list" where
  "dict_keys d = map fst d"

definition dict_contains :: "'k \<Rightarrow> ('k, 'b) dict \<Rightarrow> bool" where
  "dict_contains k d = (k \<in> set (dict_keys d))"

fun dict_setitem :: "('k, 'b) dict \<Rightarrow> 'k \<Rightarrow> 'b \<Rightarrow> ('k, 'b) dict" where
  "dict_setitem [] k b = [(k, b)]"
| "dict_setitem ((k', b') # d) k b =
     (if k' = k then (k', b) # d else (k', b') # dict_setitem d k b)"

definition dict_delete :: "('k, 'b) dict \<Rightarrow> 'k \<Rightarrow> ('k, 'b) dict" where
  "dict_delete d k = filter (\<lambda>(k', b). k' \<noteq> k) d"

text \<open>\<^verbatim>\<open>d.pop(k)\<close> raises KeyError for a missing key, also on a defaultdict.\<close>

definition dict_pop :: "('k, 'b) dict \<Rightarrow> 'k \<Rightarrow> error + ('b \<times> ('k, 'b) dict)" where
  "dict_pop d k =
     (case map_of d k of
        None \<Rightarrow> Inl KeyError
      | Some b \<Rightarrow> Inr (b, dict_delete d k))"

text \<open>
  \<^verbatim>\<open>d[k]\<close> on a \<^verbatim>\<open>defaultdict\<close>: a missing key is inserted with the default
  value before it is returned, so reading changes the dictionary.
\<close>

definition defaultdict_getitem :: "'b \<Rightarrow> ('k, 'b) dict \<Rightarrow> 'k \<Rightarrow> 'b \<times> ('k, 'b) dict" where
  "defaultdict_getitem dflt d k =
     (case map_of d k of
        None \<Rightarrow> (dflt, d @ [(k, dflt)])
      | Some b \<Rightarrow> (b, d))"

text \<open>
  \<^verbatim>\<open>d[k].extend(data)\<close> on a \<^verbatim>\<open>defaultdict(list)\<close>; \<^verbatim>\<open>d[k].append(x)\<close> is the
  same with \<open>data = [x]\<close>.
\<close>

definition defaultdict_extend :: "('k, 'x list) dict \<Rightarrow> 'k \<Rightarrow> 'x list \<Rightarrow> ('k, 'x list) dict" where
  "defaultdict_extend d k data =
     (let (l, d1) = defaultdict_getitem [] d k in dict_setitem d1 k (l @ data))"

text \<open>\<^verbatim>\<open>d[k] += n\<close> on a \<^verbatim>\<open>defaultdict(int)\<close>.\<close>

definition defaultdict_add :: "('k, int) dict \<Rightarrow> 'k \<Rightarrow> int \<Rightarrow> ('k, int) dict" where
  "defaultdict_add d k n =
     (let (m, d1) = defaultdict_getitem 0 d k in dict_setitem d1 k (m + n))"

text \<open>A \<^verbatim>\<open>for\<close> loop whose body may raise: the first error ends the loop.\<close>

fun for_each :: "('x \<Rightarrow> 's \<Rightarrow> error + 's) \<Rightarrow> 'x list \<Rightarrow> 's \<Rightarrow> error + 's" where
  "for_each body [] s = Inr s"
| "for_each body (x # xs) s =
     (case body x s of Inl e \<Rightarrow> Inl e | Inr s' \<Rightarrow> for_each body xs s')"

text \<open>
  \<^verbatim>\<open>s.add(x)\<close> on a Python set. The set \<^verbatim>\<open>to_consolidate\<close> of \<^verbatim>\<open>compact\<close> is
  kept as a list without repetitions and enumerated in the order of first insertion.
  Python leaves the order in which a set is enumerated open; it decides only the
  order in which the consolidated versions are put back at the end of the version
  dictionary, never what is stored under a version, and the properties of \<^verbatim>\<open>compact\<close>
  proved below are stated through lookups.
\<close>

definition set_add :: "'x list \<Rightarrow> 'x \<Rightarrow> 'x list" where
  "set_add s x = (if x \<in> set s then s else s @ [x])"

section \<open>The collaborators: Version, Antichain, Collection\<close>

text \<open>
  \<^verbatim>\<open>index.py\<close> imports \<^verbatim>\<open>Version\<close> and \<^verbatim>\<open>Antichain\<close> from the module
  \<^verbatim>\<open>order\<close> and \<^verbatim>\<open>Collection\<close> from the module \<^verbatim>\<open>collection\<close>. The index
  only calls their methods, so the operations are parameters of the model: a record of
  the five methods the index uses, over a type \<open>'v\<close> of versions and a type \<open>'f\<close> of
  antichains. Versions are dictionary keys; their equality is the equality of \<open>'v\<close>.
\<close>

record ('v, 'f) order_module =
  version_less_equal :: "'v \<Rightarrow> 'v \<Rightarrow> bool"
  version_join :: "'v \<Rightarrow> 'v \<Rightarrow> 'v"
  version_advance_by :: "'v \<Rightarrow> 'f \<Rightarrow> 'v"
  antichain_less_equal :: "'f \<Rightarrow> 'f \<Rightarrow> bool"
  antichain_less_equal_version :: "'f \<Rightarrow> 'v \<Rightarrow> bool"

datatype 'e Collection = Collection "('e \<times> int) list"

text \<open>
  The argument of \<^verbatim>\<open>_validate\<close>, told apart by \<^verbatim>\<open>isinstance\<close>: the methods of the
  index pass a version (\<^verbatim>\<open>reconstruct_at\<close>, \<^verbatim>\<open>add_value\<close>) or an antichain
  (\<^verbatim>\<open>compact\<close>).
\<close>

datatype ('v, 'f) requested = Version 'v | Antichain 'f

section \<open>The index\<close>

record ('k, 'v, 'f, 'a) Index =
  inner :: "('k, ('v, ('a \<times> int) list) dict) dict"
  compaction_frontier :: "'f option"

definition Index_init :: "('k, 'v, 'f, 'a) Index" where
  "Index_init = \<lparr>inner = [], compaction_frontier = None\<rparr>"

definition validate ::
  "('v, 'f) order_module \<Rightarrow> ('k, 'v, 'f, 'a) Index \<Rightarrow> ('v, 'f) requested \<Rightarrow> error + unit" where
  "validate ord self requested_version =
     (case compaction_frontier self of
        None \<Rightarrow> Inr ()
      | Some cf \<Rightarrow>
          (case requested_version of
             Antichain a \<Rightarrow>
               if antichain_less_equal ord cf a then Inr () else Inl AssertionError
           | Version v \<Rightarrow>
               if antichain_less_equal_version ord cf v then Inr () else Inl AssertionError))"

definition reconstruct_at ::
  "('v, 'f) order_module \<Rightarrow> ('k, 'v, 'f, 'a) Index \<Rightarrow> 'k \<Rightarrow> 'v \<Rightarrow>
   error + (('a \<times> int) list \<times> ('k, 'v, 'f, 'a) Index)" where
  "reconstruct_at ord self key requested_version =
     (case validate ord self (Version requested_version) of
        Inl e \<Rightarrow> Inl e
      | Inr _ \<Rightarrow>
          (let (versions, inner') = defaultdict_getitem [] (inner self) key;
               out = fold (\<lambda>(version, values) out.
                             if version_less_equal ord version requested_version
                             then out @ values else out) versions []
           in Inr (out, self\<lparr>inner := inner'\<rparr>)))"

definition versions ::
  "('k, 'v, 'f, 'a) Index \<Rightarrow> 'k \<Rightarrow> 'v list \<times> ('k, 'v, 'f, 'a) Index" where
  "versions self key =
     (let (vs, inner') = defaultdict_getitem [] (inner self) key
      in (dict_keys vs, self\<lparr>inner := inner'\<rparr>))"

text \<open>
  \<^verbatim>\<open>self.inner[key][version].extend(data)\<close>: both lookups insert what is missing,
  then the list found is extended in place (\<^verbatim>\<open>append(value)\<close> extends by one entry).
\<close>

definition bag_extend ::
  "('k, ('v, 'x list) dict) dict \<Rightarrow> 'k \<Rightarrow> 'v \<Rightarrow> 'x list \<Rightarrow> ('k, ('v, 'x list) dict) dict" where
  "bag_extend d key version data =
     (let (vs, d1) = defaultdict_getitem [] d key
      in dict_setitem d1 key (defaultdict_extend vs version data))"

definition add_value ::
  "('v, 'f) order_module \<Rightarrow> ('k, 'v, 'f, 'a) Index \<Rightarrow> 'k \<Rightarrow> 'v \<Rightarrow> 'a \<times> int \<Rightarrow>
   error + ('k, 'v, 'f, 'a) Index" where
  "add_value ord self key version value =
     (case validate ord self (Version version) of
        Inl e \<Rightarrow> Inl e
      | Inr _ \<Rightarrow> Inr (self\<lparr>inner := bag_extend (inner self) key version [value]\<rparr>))"

definition append_index ::
  "('k, 'v, 'f, 'a) Index \<Rightarrow> ('k, 'v, 'f, 'a) Index \<Rightarrow> ('k, 'v, 'f, 'a) Index" where
  "append_index self other =
     self\<lparr>inner :=
       fold (\<lambda>(key, vs) d.
               fold (\<lambda>(version, data) d'. bag_extend d' key version data) vs d)
            (inner other) (inner self)\<rparr>"

definition join_collections ::
  "('v, 'f) order_module \<Rightarrow> ('k, 'v, 'f, 'a) Index \<Rightarrow> ('k, 'v, 'f, 'b) Index \<Rightarrow>
   ('v, (('k \<times> 'a \<times> 'b) \<times> int) list) dict" where
  "join_collections ord self other =
     fold (\<lambda>(key, vs) collections.
        case map_of (inner other) key of
          None \<Rightarrow> collections
        | Some other_versions \<Rightarrow>
            fold (\<lambda>(version1, data1).
              fold (\<lambda>(version2, data2).
                fold (\<lambda>(val1, mul1).
                  fold (\<lambda>(val2, mul2) c.
                          defaultdict_extend c (version_join ord version1 version2)
                            [((key, (val1, val2)), mul1 * mul2)])
                       data2)
                  data1)
                other_versions)
              vs collections)
       (inner self) []"

definition join ::
  "('v, 'f) order_module \<Rightarrow> ('k, 'v, 'f, 'a) Index \<Rightarrow> ('k, 'v, 'f, 'b) Index \<Rightarrow>
   ('v \<times> ('k \<times> 'a \<times> 'b) Collection) list" where
  "join ord self other =
     map (\<lambda>(version, c). (version, Collection c))
         (filter (\<lambda>(version, c). c \<noteq> []) (join_collections ord self other))"

definition consolidate_values :: "('a \<times> int) list \<Rightarrow> ('a \<times> int) list" where
  "consolidate_values values =
     (let consolidated =
            fold (\<lambda>(value, multiplicity) consolidated.
                    defaultdict_add consolidated value multiplicity)
                 values []
      in filter (\<lambda>(value, multiplicity). multiplicity \<noteq> 0) consolidated)"

text \<open>The body of the first inner loop of \<^verbatim>\<open>compact\<close>, over \<^verbatim>\<open>to_compact\<close>.\<close>

definition compact_move ::
  "('v, 'f) order_module \<Rightarrow> 'f \<Rightarrow> 'v \<Rightarrow> ('v, ('a \<times> int) list) dict \<times> 'v list \<Rightarrow>
   error + (('v, ('a \<times> int) list) dict \<times> 'v list)" where
  "compact_move ord cf version st =
     (case st of (vs, to_consolidate) \<Rightarrow>
        (case dict_pop vs version of
           Inl e \<Rightarrow> Inl e
         | Inr (values, vs1) \<Rightarrow>
             (let new_version = version_advance_by ord version cf
              in Inr (defaultdict_extend vs1 new_version values,
                      set_add to_consolidate new_version))))"

text \<open>The body of the second inner loop, over \<^verbatim>\<open>to_consolidate\<close>.\<close>

definition compact_consolidate ::
  "'v \<Rightarrow> ('v, ('a \<times> int) list) dict \<Rightarrow> error + ('v, ('a \<times> int) list) dict" where
  "compact_consolidate version vs =
     (case dict_pop vs version of
        Inl e \<Rightarrow> Inl e
      | Inr (values, vs1) \<Rightarrow> Inr (dict_setitem vs1 version (consolidate_values values)))"

text \<open>The body of the loop over \<^verbatim>\<open>keys\<close>.\<close>

definition compact_key ::
  "('v, 'f) order_module \<Rightarrow> 'f \<Rightarrow> 'k \<Rightarrow> ('k, ('v, ('a \<times> int) list) dict) dict \<Rightarrow>
   error + ('k, ('v, ('a \<times> int) list) dict) dict" where
  "compact_key ord cf key d =
     (let (vs, d1) = defaultdict_getitem [] d key;
          to_compact = filter (\<lambda>version. \<not> antichain_less_equal_version ord cf version)
                              (dict_keys vs)
      in case for_each (compact_move ord cf) to_compact (vs, []) of
           Inl e \<Rightarrow> Inl e
         | Inr (vs1, to_consolidate) \<Rightarrow>
             (case for_each compact_consolidate to_consolidate vs1 of
                Inl e \<Rightarrow> Inl e
              | Inr vs2 \<Rightarrow> Inr (dict_setitem d1 key vs2)))"

definition compact ::
  "('v, 'f) order_module \<Rightarrow> ('k, 'v, 'f, 'a) Index \<Rightarrow> 'f \<Rightarrow> 'k list \<Rightarrow>
   error + ('k, 'v, 'f, 'a) Index" where
  "compact ord self cf keys =
     (case validate ord self (Antichain cf) of
        Inl e \<Rightarrow> Inl e
      | Inr _ \<Rightarrow>
          (let keys1 = (if keys = [] then dict_keys (inner self) else keys)
           in case for_each (compact_key ord cf) keys1 (inner self) of
                Inl e \<Rightarrow> Inl e
              | Inr inner' \<Rightarrow>
                  (case compaction_frontier self of
                     None \<Rightarrow> Inr (self\<lparr>inner := inner', compaction_frontier := Some cf\<rparr>)
                   | Some old \<Rightarrow>
                       if antichain_less_equal ord old cf
                       then Inr (self\<lparr>inner := inner', compaction_frontier := Some cf\<rparr>)
                       else Inl AssertionError)))"

text \<open>A sequence of \<^verbatim>\<open>add_value\<close> calls, each given as (key, version, entry).\<close>

definition add_values ::
  "('v, 'f) order_module \<Rightarrow> ('k \<times> 'v \<times> 'a \<times> int) list \<Rightarrow> ('k, 'v, 'f, 'a) Index \<Rightarrow>
   error + ('k, 'v, 'f, 'a) Index" where
  "add_values ord adds self =
     for_each (\<lambda>(key, version, value) s. add_value ord s key version value) adds self"

section \<open>Reading the stored state\<close>

text \<open>The version dictionary stored under a key (none stored: the empty dictionary).\<close>

definition stored_versions ::
  "('k, ('v, 'x list) dict) dict \<Rightarrow> 'k \<Rightarrow> ('v, 'x list) dict" where
  "stored_versions d key = (case map_of d key of None \<Rightarrow> [] | Some vs \<Rightarrow> vs)"

text \<open>The bag stored under a key and a version (none stored: the empty bag).\<close>

definition entries_at :: "('k, ('v, 'x list) dict) dict \<Rightarrow> 'k \<Rightarrow> 'v \<Rightarrow> 'x list" where
  "entries_at d key version =
     (case map_of (stored_versions d key) version of None \<Rightarrow> [] | Some l \<Rightarrow> l)"

text \<open>
  The invariant of a Python dictionary, for both levels of the index: no key occurs
  twice, and under each key no version occurs twice.
\<close>

definition wf_index :: "('k, 'v, 'f, 'a) Index \<Rightarrow> bool" where
  "wf_index self =
     (distinct (dict_keys (inner self)) \<and>
      list_all (\<lambda>(key, vs). distinct (dict_keys vs)) (inner self))"

text \<open>Every version stored in the index, under any key.\<close>

definition all_versions :: "('k, 'v, 'f, 'a) Index \<Rightarrow> 'v list" where
  "all_versions self = concat (map (\<lambda>(key, vs). dict_keys vs) (inner self))"

text \<open>
  A version is settled for a frontier when it is at or beyond the frontier, or
  advancing it by the frontier leaves it where it is.
\<close>

definition settled :: "('v, 'f) order_module \<Rightarrow> 'f \<Rightarrow> 'v \<Rightarrow> bool" where
  "settled ord F w =
     (antichain_less_equal_version ord F w \<or> version_advance_by ord w F = w)"

text \<open>A version that compaction leaves alone or moves to a settled version.\<close>

definition advance_settles :: "('v, 'f) order_module \<Rightarrow> 'f \<Rightarrow> 'v \<Rightarrow> bool" where
  "advance_settles ord F u =
     (antichain_less_equal_version ord F u \<or> settled ord F (version_advance_by ord u F))"

section \<open>Specifications\<close>

text \<open>The elements of a list in the order of their first occurrence.\<close>

fun first_occurrences :: "'x list \<Rightarrow> 'x list" where
  "first_occurrences [] = []"
| "first_occurrences (x # xs) = x # filter (\<lambda>y. y \<noteq> x) (first_occurrences xs)"

text \<open>The second components paired with a given first component, in order.\<close>

definition bucket :: "('v \<times> 'x) list \<Rightarrow> 'v \<Rightarrow> 'x list" where
  "bucket ps v = map snd (filter (\<lambda>p. fst p = v) ps)"

text \<open>
  Grouping a list of pairs by first component: the groups in the order in which their
  first member occurs, each group in the order of the list.
\<close>

definition group_pairs :: "('v \<times> 'x) list \<Rightarrow> ('v \<times> 'x list) list" where
  "group_pairs ps = map (\<lambda>v. (v, bucket ps v)) (first_occurrences (map fst ps))"

text \<open>The net multiplicity of a value in a bag: the sum over its occurrences.\<close>

definition net_multiplicity :: "('a \<times> int) list \<Rightarrow> 'a \<Rightarrow> int" where
  "net_multiplicity xs a = sum_list (map snd (filter (\<lambda>p. fst p = a) xs))"

text \<open>The (version, entry) pairs added under a key, in the order of the calls.\<close>

definition added_under :: "('k \<times> 'v \<times> 'x) list \<Rightarrow> 'k \<Rightarrow> ('v \<times> 'x) list" where
  "added_under adds key = map snd (filter (\<lambda>a. fst a = key) adds)"

text \<open>
  The reconstruction as the specification words it: every entry added under the key at
  a version \<open>v' \<le> v\<close>, in the order the entries were inserted.
\<close>

definition added_up_to ::
  "('v, 'f) order_module \<Rightarrow> ('k \<times> 'v \<times> 'x) list \<Rightarrow> 'k \<Rightarrow> 'v \<Rightarrow> 'x list" where
  "added_up_to ord adds key v =
     map snd (filter (\<lambda>(v', x). version_less_equal ord v' v) (added_under adds key))"

text \<open>
  The reconstruction as the index computes it: the versions added under the key, in the
  order of their first insertion, each with its entries in the order they were inserted.
\<close>

definition added_by_version ::
  "('v, 'f) order_module \<Rightarrow> ('k \<times> 'v \<times> 'x) list \<Rightarrow> 'k \<Rightarrow> 'v \<Rightarrow> 'x list" where
  "added_by_version ord adds key v =
     concat (map snd (filter (\<lambda>(v', xs). version_less_equal ord v' v)
                             (group_pairs (added_under adds key))))"

text \<open>
  The cross product of a join: for every key of the first index that is a key of the
  second, every version and entry of the first with every version and entry of the
  second, tagged with the joined version.
\<close>

definition join_pairs ::
  "('v, 'f) order_module \<Rightarrow> ('k, 'v, 'f, 'a) Index \<Rightarrow> ('k, 'v, 'f, 'b) Index \<Rightarrow>
   ('v \<times> (('k \<times> 'a \<times> 'b) \<times> int)) list" where
  "join_pairs ord self other =
     concat (map (\<lambda>(key, vs).
       case map_of (inner other) key of
         None \<Rightarrow> []
       | Some other_versions \<Rightarrow>
           concat (map (\<lambda>(version1, data1).
             concat (map (\<lambda>(version2, data2).
               concat (map (\<lambda>(val1, mul1).
                 map (\<lambda>(val2, mul2).
                        (version_join ord version1 version2,
                         ((key, (val1, val2)), mul1 * mul2)))
                     data2)
                 data1))
               other_versions))
             vs))
       (inner self))"

definition entries :: "'e Collection \<Rightarrow> ('e \<times> int) list" where
  "entries c = (case c of Collection l \<Rightarrow> l)"

text \<open>The bag stored under a version in a version dictionary (none: the empty bag).\<close>

definition bag_at :: "('v, 'x list) dict \<Rightarrow> 'v \<Rightarrow> 'x list" where
  "bag_at vs w = (case map_of vs w of None \<Rightarrow> [] | Some l \<Rightarrow> l)"

text \<open>
  The version dictionary of a key after an append, as a specification: the versions of
  the first index in their order, each bag followed by the bag the second index holds
  at that version, then the versions only the second index holds, in its order.
\<close>

definition appended_versions ::
  "('v, 'x list) dict \<Rightarrow> ('v, 'x list) dict \<Rightarrow> ('v, 'x list) dict" where
  "appended_versions vsA vsB =
     map (\<lambda>(w, xs). (w, xs @ bag_at vsB w)) vsA
     @ filter (\<lambda>(w, ys). w \<notin> set (dict_keys vsA)) vsB"

text \<open>The reconstruction at a key and version read off that dictionary.\<close>

definition appended_up_to ::
  "('v, 'f) order_module \<Rightarrow> ('k, 'v, 'f, 'a) Index \<Rightarrow> ('k, 'v, 'f, 'a) Index \<Rightarrow>
   'k \<Rightarrow> 'v \<Rightarrow> ('a \<times> int) list" where
  "appended_up_to ord A B key v =
     concat (map snd (filter (\<lambda>(w, xs). version_less_equal ord w v)
        (appended_versions (stored_versions (inner A) key) (stored_versions (inner B) key))))"

text \<open>A dictionary of bags as the list of its (key, entry) pairs.\<close>

definition flatten :: "('v \<times> 'x list) list \<Rightarrow> ('v \<times> 'x) list" where
  "flatten d = concat (map (\<lambda>(v, c). map (Pair v) c) d)"

section \<open>Versions as vectors of naturals\<close>

text \<open>
  Modelled from the spec: the classes \<^verbatim>\<open>Version\<close> and \<^verbatim>\<open>Antichain\<close> of the module
  \<^verbatim>\<open>order\<close>, which is not part of the sources at hand. A version is a vector of
  non-negative integers; \<open>less_equal\<close> holds iff every coordinate is at most the
  corresponding one; \<open>join\<close> is the coordinate-wise maximum. An antichain is a list of
  versions; \<open>less_equal\<close> holds iff every element of the first is below some element of
  the second; \<open>less_equal_version\<close> holds iff some element is below the version.
  \<open>advance_by\<close> returns the smallest version above the original and above some element
  of the frontier: the candidates are the joins of the version with each element, and
  the model takes their coordinate-wise minimum, which is the least candidate whenever
  there is one (the specification leaves the other case open); for an empty frontier
  the version is returned as it is.
\<close>

definition vec_less_equal :: "nat list \<Rightarrow> nat list \<Rightarrow> bool" where
  "vec_less_equal u v = list_all2 (\<le>) u v"

definition vec_join :: "nat list \<Rightarrow> nat list \<Rightarrow> nat list" where
  "vec_join u v = map2 max u v"

definition vec_meet :: "nat list \<Rightarrow> nat list \<Rightarrow> nat list" where
  "vec_meet u v = map2 min u v"

definition vec_advance_by :: "nat list \<Rightarrow> nat list list \<Rightarrow> nat list" where
  "vec_advance_by v frontier =
     (case frontier of
        [] \<Rightarrow> v
      | f # fs \<Rightarrow> fold (\<lambda>e r. vec_meet r (vec_join v e)) fs (vec_join v f))"

definition vec_antichain_less_equal :: "nat list list \<Rightarrow> nat list list \<Rightarrow> bool" where
  "vec_antichain_less_equal F G = list_all (\<lambda>s. list_ex (\<lambda>e. vec_less_equal s e) G) F"

definition vec_less_equal_version :: "nat list list \<Rightarrow> nat list \<Rightarrow> bool" where
  "vec_less_equal_version F v = list_ex (\<lambda>e. vec_less_equal e v) F"

definition vec_order :: "(nat list, nat list list) order_module" where
  "vec_order =
     \<lparr>version_less_equal = vec_less_equal,
      version_join = vec_join,
      version_advance_by = vec_advance_by,
      antichain_less_equal = vec_antichain_less_equal,
      antichain_less_equal_version = vec_less_equal_version\<rparr>"

section \<open>Dictionaries and grouping\<close>

lemma map_of_dict_setitem: "map_of (dict_setitem d k b) = (map_of d)(k \<mapsto> b)"
  by (induction d) (auto simp: fun_eq_iff)

lemma dict_keys_dict_setitem:
  "dict_keys (dict_setitem d k b) =
     (if k \<in> set (dict_keys d) then dict_keys d else dict_keys d @ [k])"
  by (induction d) (fastforce simp: dict_keys_def)+

lemma dict_setitem_append_absent:
  "k \<notin> set (dict_keys d) \<Longrightarrow> dict_setitem (d @ d') k b = d @ dict_setitem d' k b"
  by (induction d) (auto simp: dict_keys_def)

lemma dict_setitem_map:
  "distinct ks \<Longrightarrow> k \<in> set ks \<Longrightarrow>
   dict_setitem (map (\<lambda>v. (v, f v)) ks) k b = map (\<lambda>v. (v, (f(k := b)) v)) ks"
  by (induction ks) auto

lemma map_of_map_keys:
  "map_of (map (\<lambda>v. (v, f v)) ks) k = (if k \<in> set ks then Some (f k) else None)"
  by (induction ks) auto

lemma defaultdict_extend_unfold:
  "defaultdict_extend d k data =
     (case map_of d k of
        None \<Rightarrow> d @ [(k, data)]
      | Some l \<Rightarrow> dict_setitem d k (l @ data))"
proof (cases "map_of d k")
  case None
  then have "k \<notin> set (dict_keys d)"
    by (simp add: dict_keys_def map_of_eq_None_iff)
  with None show ?thesis
    by (simp add: defaultdict_extend_def defaultdict_getitem_def dict_setitem_append_absent)
next
  case (Some l)
  then show ?thesis
    by (simp add: defaultdict_extend_def defaultdict_getitem_def)
qed

lemma first_occurrences_set [simp]: "set (first_occurrences xs) = set xs"
  by (induction xs) auto

lemma first_occurrences_distinct [simp]: "distinct (first_occurrences xs)"
  by (induction xs) auto

lemma first_occurrences_snoc:
  "first_occurrences (xs @ [x]) =
     (if x \<in> set xs then first_occurrences xs else first_occurrences xs @ [x])"
  by (induction xs) auto

lemma bucket_snoc:
  "bucket (ps @ [(v, x)]) w = (if w = v then bucket ps v @ [x] else bucket ps w)"
  by (simp add: bucket_def)

lemma group_pairs_snoc:
  "group_pairs (ps @ [(v, x)]) = defaultdict_extend (group_pairs ps) v [x]"
proof (cases "v \<in> fst ` set ps")
  case True
  then have m: "map_of (group_pairs ps) v = Some (bucket ps v)"
    by (simp add: group_pairs_def map_of_map_keys)
  have "(\<lambda>w. (w, bucket (ps @ [(v, x)]) w)) = (\<lambda>w. (w, ((bucket ps)(v := bucket ps v @ [x])) w))"
    by (auto simp: fun_eq_iff bucket_snoc)
  with True m show ?thesis
    by (simp add: defaultdict_extend_unfold group_pairs_def first_occurrences_snoc
        dict_setitem_map)
next
  case False
  then have m: "map_of (group_pairs ps) v = None"
    by (simp add: group_pairs_def map_of_map_keys)
  have b: "bucket ps v = []" using False by (auto simp: bucket_def filter_empty_conv)
  have "map (\<lambda>w. (w, bucket (ps @ [(v, x)]) w)) (first_occurrences (map fst ps))
        = map (\<lambda>w. (w, bucket ps w)) (first_occurrences (map fst ps))"
    using False by (auto simp: bucket_snoc)
  with False m b show ?thesis
    by (simp add: defaultdict_extend_unfold group_pairs_def first_occurrences_snoc bucket_snoc)
qed

lemma collect_group_pairs:
  "fold (\<lambda>(v, x) c. defaultdict_extend c v [x]) ps [] = group_pairs ps"
proof (induction ps rule: rev_induct)
  case Nil
  show ?case by (simp add: group_pairs_def)
next
  case (snoc p ps)
  then show ?case by (cases p) (simp add: group_pairs_snoc)
qed

lemma group_pairs_nonempty: "(v, c) \<in> set (group_pairs ps) \<Longrightarrow> c \<noteq> []"
  by (force simp: group_pairs_def bucket_def filter_empty_conv)

lemma group_pairs_keys: "dict_keys (group_pairs ps) = first_occurrences (map fst ps)"
  by (simp add: group_pairs_def dict_keys_def comp_def)

lemma flatten_dict_setitem:
  "map_of d k = Some l \<Longrightarrow>
   mset (flatten (dict_setitem d k (l @ data))) = mset (flatten d) + mset (map (Pair k) data)"
  by (induction d) (auto simp: flatten_def)

lemma flatten_defaultdict_extend:
  "mset (flatten (defaultdict_extend d k data)) = mset (flatten d) + mset (map (Pair k) data)"
  by (cases "map_of d k")
     (auto simp: defaultdict_extend_unfold flatten_dict_setitem, simp add: flatten_def)

lemma flatten_group_pairs: "mset (flatten (group_pairs ps)) = mset ps"
proof (induction ps rule: rev_induct)
  case Nil
  show ?case by (simp add: group_pairs_def flatten_def)
next
  case (snoc p ps)
  then show ?case
    by (cases p) (simp add: group_pairs_snoc flatten_defaultdict_extend)
qed

section \<open>Validation against the compaction frontier\<close>

lemma for_each_no_assertion:
  assumes "\<And>x s. body x s \<noteq> Inl AssertionError"
  shows "for_each body xs s \<noteq> Inl AssertionError"
  using assms by (induction xs arbitrary: s) (auto split: sum.splits)

lemma dict_pop_no_assertion: "dict_pop d k \<noteq> Inl AssertionError"
  by (simp add: dict_pop_def split: option.splits)

lemma compact_move_no_assertion: "compact_move ord cf version st \<noteq> Inl AssertionError"
  using dict_pop_no_assertion [of "fst st" version]
  by (auto simp: compact_move_def Let_def split: prod.splits sum.splits)

lemma compact_consolidate_no_assertion: "compact_consolidate version vs \<noteq> Inl AssertionError"
  using dict_pop_no_assertion [of vs version]
  by (auto simp: compact_consolidate_def split: prod.splits sum.splits)

lemma compact_moves_no_assertion:
  "for_each (compact_move ord cf) tc st \<noteq> Inl AssertionError"
  by (rule for_each_no_assertion) (rule compact_move_no_assertion)

lemma compact_consolidates_no_assertion:
  "for_each compact_consolidate tc vs \<noteq> Inl AssertionError"
  by (rule for_each_no_assertion) (rule compact_consolidate_no_assertion)

lemma compact_key_no_assertion: "compact_key ord cf key d \<noteq> Inl AssertionError"
  unfolding compact_key_def Let_def
  using compact_moves_no_assertion compact_consolidates_no_assertion
  by (fastforce split: prod.splits sum.splits)

lemma compact_keys_no_assertion:
  "for_each (compact_key ord cf) keys d \<noteq> Inl AssertionError"
  by (rule for_each_no_assertion) (rule compact_key_no_assertion)

text \<open>
  Claim C4. Once a compaction frontier \<open>F\<close> is installed, \<^verbatim>\<open>reconstruct_at\<close> and
  \<^verbatim>\<open>add_value\<close> with a version that no element of \<open>F\<close> is below, and \<^verbatim>\<open>compact\<close>
  with a frontier that \<open>F\<close> is not below, fail with the assertion error of
  \<^verbatim>\<open>_validate\<close>, whatever the key, the entry and the stored contents. With a version
  at or beyond \<open>F\<close> the first two return; with a frontier at or beyond \<open>F\<close> the
  compaction does not raise the assertion error.
\<close>

theorem stale_version_access:
  assumes "compaction_frontier self = Some F"
  shows "(\<not> antichain_less_equal_version ord F v \<longrightarrow>
            reconstruct_at ord self key v = Inl AssertionError \<and>
            add_value ord self key v x = Inl AssertionError) \<and>
         (\<not> antichain_less_equal ord F G \<longrightarrow>
            compact ord self G keys = Inl AssertionError) \<and>
         (antichain_less_equal_version ord F v \<longrightarrow>
            (\<exists>out self'. reconstruct_at ord self key v = Inr (out, self')) \<and>
            (\<exists>self'. add_value ord self key v x = Inr self')) \<and>
         (antichain_less_equal ord F G \<longrightarrow>
            compact ord self G keys \<noteq> Inl AssertionError)"
proof -
  have "compact ord self G keys \<noteq> Inl AssertionError" if "antichain_less_equal ord F G"
    using that assms compact_keys_no_assertion [of ord G "if keys = [] then dict_keys (inner self) else keys" "inner self"]
    by (auto simp: compact_def validate_def Let_def split: sum.splits)
  moreover have "\<exists>out self'. reconstruct_at ord self key v = Inr (out, self')"
    if "antichain_less_equal_version ord F v"
    using that assms by (simp add: reconstruct_at_def validate_def Let_def split: prod.splits)
  ultimately show ?thesis
    using assms
    by (simp add: reconstruct_at_def add_value_def compact_def validate_def)
qed

theorem stale_version_access_witness:
  "compact vec_order (Index_init :: (string, nat list, nat list list, nat) Index) [[2]] []
     = Inr \<lparr>inner = [], compaction_frontier = Some [[2]]\<rparr> \<and>
   \<not> antichain_less_equal_version vec_order [[2]] [1] \<and>
   reconstruct_at vec_order
     (\<lparr>inner = [], compaction_frontier = Some [[2]]\<rparr> :: (string, nat list, nat list list, nat) Index)
     ''k'' [1] = Inl AssertionError \<and>
   add_value vec_order
     (\<lparr>inner = [], compaction_frontier = Some [[2]]\<rparr> :: (string, nat list, nat list list, nat) Index)
     ''k'' [1] (10, 1) = Inl AssertionError \<and>
   \<not> antichain_less_equal vec_order [[2]] [[1]] \<and>
   compact vec_order
     (\<lparr>inner = [], compaction_frontier = Some [[2]]\<rparr> :: (string, nat list, nat list list, nat) Index)
     [[1]] [] = Inl AssertionError \<and>
   antichain_less_equal_version vec_order [[2]] [3] \<and>
   (\<exists>out self'. reconstruct_at vec_order
     (\<lparr>inner = [], compaction_frontier = Some [[2]]\<rparr> :: (string, nat list, nat list list, nat) Index)
     ''k'' [3] = Inr (out, self')) \<and>
   (\<exists>self'. add_value vec_order
     (\<lparr>inner = [], compaction_frontier = Some [[2]]\<rparr> :: (string, nat list, nat list list, nat) Index)
     ''k'' [3] (10, 1) = Inr self') \<and>
   antichain_less_equal vec_order [[2]] [[3]] \<and>
   compact vec_order
     (\<lparr>inner = [], compaction_frontier = Some [[2]]\<rparr> :: (string, nat list, nat list list, nat) Index)
     [[3]] [] \<noteq> Inl AssertionError"
proof -
  let ?S = "\<lparr>inner = [], compaction_frontier = Some [[2]]\<rparr> :: (string, nat list, nat list list, nat) Index"
  have f: "compaction_frontier ?S = Some [[2]]" by simp
  have c: "compact vec_order (Index_init :: (string, nat list, nat list list, nat) Index) [[2]] [] = Inr ?S"
    by code_simp
  have s1: "\<not> antichain_less_equal_version vec_order [[2]] [1]" by code_simp
  have s2: "\<not> antichain_less_equal vec_order [[2]] [[1]]" by code_simp
  have g1: "antichain_less_equal_version vec_order [[2]] [3]" by code_simp
  have g2: "antichain_less_equal vec_order [[2]] [[3]]" by code_simp
  note stale = stale_version_access [OF f, of vec_order "[1]" "''k''" "(10, 1)" "[[1]]" "[]"]
  note fresh = stale_version_access [OF f, of vec_order "[3]" "''k''" "(10, 1)" "[[3]]" "[]"]
  show ?thesis using c s1 s2 g1 g2 stale fresh by blast
qed

text \<open>
  Claim C5. On an index with an installed compaction frontier, \<^verbatim>\<open>compact\<close> with a
  new frontier that the installed one is not below fails with the assertion error; it
  returns no index.
\<close>

theorem compact_non_monotonic_fails:
  assumes "compaction_frontier self = Some F" and "\<not> antichain_less_equal ord F G"
  shows "compact ord self G keys = Inl AssertionError \<and>
         (\<forall>self'. compact ord self G keys \<noteq> Inr self')"
  using assms by (simp add: compact_def validate_def)

theorem compact_non_monotonic_fails_witness:
  "compaction_frontier
     (\<lparr>inner = [(''key1'', [([2], [(10, 2)])])], compaction_frontier = Some [[2]]\<rparr>
        :: (string, nat list, nat list list, nat) Index) = Some [[2]] \<and>
   \<not> antichain_less_equal vec_order [[2]] [[1]] \<and>
   compact vec_order
     (\<lparr>inner = [(''key1'', [([2], [(10, 2)])])], compaction_frontier = Some [[2]]\<rparr>
        :: (string, nat list, nat list list, nat) Index) [[1]] [] = Inl AssertionError"
proof -
  let ?S = "\<lparr>inner = [(''key1'', [([2], [(10, 2)])])], compaction_frontier = Some [[2]]\<rparr>
        :: (string, nat list, nat list list, nat) Index"
  have f: "compaction_frontier ?S = Some [[2]]" by simp
  have s: "\<not> antichain_less_equal vec_order [[2]] [[1]]" by code_simp
  show ?thesis using f s compact_non_monotonic_fails [OF f s, of "[]"] by blast
qed

section \<open>Consolidation and the reference example of compaction\<close>

lemma defaultdict_add_unfold:
  "defaultdict_add d k n =
     (case map_of d k of
        None \<Rightarrow> d @ [(k, n)]
      | Some m \<Rightarrow> dict_setitem d k (m + n))"
proof (cases "map_of d k")
  case None
  then have "k \<notin> set (dict_keys d)"
    by (simp add: dict_keys_def map_of_eq_None_iff)
  with None show ?thesis
    by (simp add: defaultdict_add_def defaultdict_getitem_def dict_setitem_append_absent)
next
  case (Some m)
  then show ?thesis
    by (simp add: defaultdict_add_def defaultdict_getitem_def)
qed

lemma map_of_defaultdict_add:
  "map_of (defaultdict_add d k n) =
     (map_of d)(k \<mapsto> (case map_of d k of None \<Rightarrow> 0 | Some m \<Rightarrow> m) + n)"
  by (cases "map_of d k")
     (auto simp: defaultdict_add_unfold map_of_dict_setitem fun_eq_iff map_of_append
       map_add_def split: option.splits)

lemma dict_keys_defaultdict_add:
  "dict_keys (defaultdict_add d k n) =
     (if k \<in> set (dict_keys d) then dict_keys d else dict_keys d @ [k])"
proof (cases "map_of d k")
  case None
  then have "k \<notin> set (dict_keys d)" by (simp add: dict_keys_def map_of_eq_None_iff)
  with None show ?thesis by (simp add: defaultdict_add_unfold dict_keys_def)
next
  case (Some l)
  then have "k \<in> set (dict_keys d)"
    using map_of_eq_None_iff [of d k] by (simp add: dict_keys_def)
  with Some show ?thesis by (simp add: defaultdict_add_unfold dict_keys_dict_setitem)
qed

lemma net_multiplicity_Cons:
  "net_multiplicity ((v, m) # xs) a = (if v = a then m else 0) + net_multiplicity xs a"
  by (simp add: net_multiplicity_def)

lemma net_multiplicity_absent: "a \<notin> fst ` set xs \<Longrightarrow> net_multiplicity xs a = 0"
proof -
  assume "a \<notin> fst ` set xs"
  then have "filter (\<lambda>p. fst p = a) xs = []"
    by (auto simp: filter_empty_conv)
  then show ?thesis by (simp add: net_multiplicity_def)
qed

lemma consolidated_lookup:
  "map_of (fold (\<lambda>(value, multiplicity) consolidated.
                    defaultdict_add consolidated value multiplicity) xs acc) a
     = (if map_of acc a \<noteq> None \<or> a \<in> fst ` set xs
        then Some ((case map_of acc a of None \<Rightarrow> 0 | Some m \<Rightarrow> m) + net_multiplicity xs a)
        else None)"
proof (induction xs arbitrary: acc)
  case Nil
  show ?case
    by (auto simp: net_multiplicity_def split: option.splits)
next
  case (Cons x xs)
  obtain v m where x: "x = (v, m)" by (cases x) auto
  show ?case
    using Cons.IH [of "defaultdict_add acc v m"]
    by (auto simp: x map_of_defaultdict_add net_multiplicity_Cons split: option.splits)
qed

lemma consolidated_distinct:
  "distinct (dict_keys acc) \<Longrightarrow>
   distinct (dict_keys (fold (\<lambda>(value, multiplicity) consolidated.
                    defaultdict_add consolidated value multiplicity) xs acc))"
  by (induction xs arbitrary: acc) (auto simp: dict_keys_defaultdict_add)

lemma map_of_filter_distinct:
  "distinct (map fst d) \<Longrightarrow>
   map_of (filter (\<lambda>(k, b). P b) d) a
     = (case map_of d a of None \<Rightarrow> None | Some b \<Rightarrow> if P b then Some b else None)"
proof (induction d)
  case Nil
  then show ?case by simp
next
  case (Cons x d)
  then show ?case
    using map_of_eq_None_iff [of d a]
    by (cases x) (auto split: option.splits simp: image_iff)
qed

lemma consolidate_values_lookup:
  "map_of (consolidate_values xs) a
     = (if net_multiplicity xs a = 0 then None else Some (net_multiplicity xs a))"
proof -
  let ?d = "fold (\<lambda>(value, multiplicity) consolidated.
                    defaultdict_add consolidated value multiplicity) xs []"
  have d: "distinct (map fst ?d)"
    using consolidated_distinct [of "[]" xs] by (simp add: dict_keys_def)
  have m: "map_of ?d a = (if a \<in> fst ` set xs then Some (net_multiplicity xs a) else None)"
    using consolidated_lookup [of xs "[]" a] by simp
  have c: "consolidate_values xs = filter (\<lambda>(value, multiplicity). multiplicity \<noteq> 0) ?d"
    by (simp add: consolidate_values_def)
  show ?thesis
    unfolding c map_of_filter_distinct [OF d] m
    by (simp add: net_multiplicity_absent)
qed

lemma consolidate_values_distinct: "distinct (map fst (consolidate_values xs))"
  using consolidated_distinct [of "[]" xs]
  by (simp add: consolidate_values_def dict_keys_def distinct_map_filter)

lemma compact_reference_run:
  "add_values vec_order
     [(''key1'', [1], (10, 1)), (''key1'', [1], (10, 2)), (''key1'', [2], (10, - 1))]
     (Index_init :: (string, nat list, nat list list, nat) Index)
   = Inr \<lparr>inner = [(''key1'', [([1], [(10, 1), (10, 2)]), ([2], [(10, - 1)])])],
          compaction_frontier = None\<rparr> \<and>
   compact vec_order
     \<lparr>inner = [(''key1'', [([1], [(10::nat, 1), (10, 2)]), ([2], [(10, - 1)])])],
      compaction_frontier = None\<rparr> [[2]] []
   = Inr \<lparr>inner = [(''key1'', [([2], [(10, 2)])])], compaction_frontier = Some [[2]]\<rparr> \<and>
   reconstruct_at vec_order
     \<lparr>inner = [(''key1'', [([2], [(10::nat, 2)])])], compaction_frontier = Some [[2]]\<rparr>
     ''key1'' [2]
   = Inr ([(10, 2)],
          \<lparr>inner = [(''key1'', [([2], [(10, 2)])])], compaction_frontier = Some [[2]]\<rparr>)"
  by code_simp

text \<open>
  Claim C3. With no compaction frontier, the entries \<open>(10, 1)\<close> and \<open>(10, 2)\<close> at
  version \<open>[1]\<close> and \<open>(10, -1)\<close> at version \<open>[2]\<close> under one key, compacting with the
  frontier \<open>{[2]}\<close> merges version \<open>[1]\<close> into \<open>[2]\<close> and consolidates the three
  entries, and \<^verbatim>\<open>reconstruct_at\<close> at \<open>[2]\<close> then returns exactly \<open>[(10, 2)]\<close>. In
  general the consolidation of a bag holds each value once, with the sum of its
  multiplicities, and holds no value whose multiplicities sum to zero.
\<close>

theorem compact_consolidation_example:
  "(add_values vec_order
     [(''key1'', [1], (10, 1)), (''key1'', [1], (10, 2)), (''key1'', [2], (10, - 1))]
     (Index_init :: (string, nat list, nat list list, nat) Index)
   = Inr \<lparr>inner = [(''key1'', [([1], [(10, 1), (10, 2)]), ([2], [(10, - 1)])])],
          compaction_frontier = None\<rparr> \<and>
   compact vec_order
     \<lparr>inner = [(''key1'', [([1], [(10::nat, 1), (10, 2)]), ([2], [(10, - 1)])])],
      compaction_frontier = None\<rparr> [[2]] []
   = Inr \<lparr>inner = [(''key1'', [([2], [(10, 2)])])], compaction_frontier = Some [[2]]\<rparr> \<and>
   reconstruct_at vec_order
     \<lparr>inner = [(''key1'', [([2], [(10::nat, 2)])])], compaction_frontier = Some [[2]]\<rparr>
     ''key1'' [2]
   = Inr ([(10, 2)],
          \<lparr>inner = [(''key1'', [([2], [(10, 2)])])], compaction_frontier = Some [[2]]\<rparr>)) \<and>
   map_of (consolidate_values xs) a
     = (if net_multiplicity xs a = 0 then None else Some (net_multiplicity xs a)) \<and>
   distinct (map fst (consolidate_values xs))"
  using compact_reference_run consolidate_values_lookup [of xs a]
    consolidate_values_distinct [of xs]
  by blast

section \<open>Reading: reconstruction and version enumeration\<close>

lemma reconstruct_fold:
  "fold (\<lambda>(version, values) out. if P version then out @ values else out) vs acc
     = acc @ concat (map snd (filter (\<lambda>(w, xs). P w) vs))"
  by (induction vs arbitrary: acc) (auto split: prod.splits)

lemma reconstruct_at_unfold:
  "reconstruct_at ord self key v =
     (case validate ord self (Version v) of
        Inl e \<Rightarrow> Inl e
      | Inr u \<Rightarrow>
          Inr (concat (map snd (filter (\<lambda>(w, xs). version_less_equal ord w v)
                                        (stored_versions (inner self) key))),
               snd (versions self key)))"
  by (auto simp: reconstruct_at_def versions_def stored_versions_def defaultdict_getitem_def
        reconstruct_fold Let_def split: sum.splits option.splits)

lemma versions_unfold:
  "versions self key =
     (dict_keys (stored_versions (inner self) key),
      if dict_contains key (inner self) then self
      else self\<lparr>inner := inner self @ [(key, [])]\<rparr>)"
proof (cases "map_of (inner self) key")
  case None
  then have "\<not> dict_contains key (inner self)"
    by (simp add: dict_contains_def dict_keys_def map_of_eq_None_iff)
  with None show ?thesis
    by (simp add: versions_def stored_versions_def defaultdict_getitem_def dict_keys_def)
next
  case (Some vs)
  then have "dict_contains key (inner self)"
    using map_of_eq_None_iff [of "inner self" key]
    by (simp add: dict_contains_def dict_keys_def)
  with Some show ?thesis
    by (simp add: versions_def stored_versions_def defaultdict_getitem_def)
qed

lemma map_of_Some_contains: "map_of d k = Some b \<Longrightarrow> dict_contains k d"
  using map_of_eq_None_iff [of d k] by (simp add: dict_contains_def dict_keys_def)

lemma map_of_None_contains: "map_of d k = None \<Longrightarrow> \<not> dict_contains k d"
  by (simp add: dict_contains_def dict_keys_def map_of_eq_None_iff)

lemma stored_versions_vivify:
  "\<not> dict_contains key d \<Longrightarrow> stored_versions (d @ [(key, [])]) k = stored_versions d k"
  by (auto simp: stored_versions_def map_of_append map_add_def
      split: option.splits dest: map_of_Some_contains)

lemma reconstruct_at_state:
  assumes "reconstruct_at ord self key v = Inr (out, self')"
  shows "snd (versions self key) = self' \<and>
         compaction_frontier self' = compaction_frontier self \<and>
         (\<forall>k. stored_versions (inner self') k = stored_versions (inner self) k) \<and>
         (\<forall>k w. entries_at (inner self') k w = entries_at (inner self) k w) \<and>
         (dict_contains key (inner self) \<longrightarrow> self' = self) \<and>
         (\<not> dict_contains key (inner self) \<longrightarrow> inner self' = inner self @ [(key, [])])"
proof -
  from assms have s: "self' = snd (versions self key)"
    by (auto simp: reconstruct_at_unfold split: sum.splits)
  show ?thesis
    unfolding s versions_unfold
    by (simp add: entries_at_def stored_versions_vivify)
qed

text \<open>
  Claim C9, amended. A call of \<^verbatim>\<open>reconstruct_at\<close> that returns, and the call of
  \<^verbatim>\<open>versions\<close> for the same key, leave the compaction frontier, the version
  dictionary read under every key and the bag read under every key and version as they
  were. For a key present in the index the whole state is unchanged; for a key that is
  absent the lookup on the \<^verbatim>\<open>defaultdict\<close> inserts the key with an empty version
  dictionary.
\<close>

theorem reads_keep_contents:
  assumes "reconstruct_at ord self key v = Inr (out, self')"
  shows "snd (versions self key) = self' \<and>
         compaction_frontier self' = compaction_frontier self \<and>
         (\<forall>k. stored_versions (inner self') k = stored_versions (inner self) k) \<and>
         (\<forall>k w. entries_at (inner self') k w = entries_at (inner self) k w) \<and>
         (dict_contains key (inner self) \<longrightarrow> self' = self) \<and>
         (\<not> dict_contains key (inner self) \<longrightarrow> inner self' = inner self @ [(key, [])])"
  using assms by (rule reconstruct_at_state)

theorem reads_keep_contents_witness:
  "reconstruct_at vec_order
     (\<lparr>inner = [(''key1'', [([2], [(10, 2)])])], compaction_frontier = Some [[2]]\<rparr>
        :: (string, nat list, nat list list, nat) Index) ''key2'' [3]
   = Inr ([], \<lparr>inner = [(''key1'', [([2], [(10, 2)])]), (''key2'', [])],
              compaction_frontier = Some [[2]]\<rparr>) \<and>
   \<not> dict_contains ''key2''
       (inner (\<lparr>inner = [(''key1'', [([2], [(10, 2)])])], compaction_frontier = Some [[2]]\<rparr>
          :: (string, nat list, nat list list, nat) Index)) \<and>
   (\<forall>k w. entries_at
       (inner (\<lparr>inner = [(''key1'', [([2], [(10, 2)])]), (''key2'', [])],
                compaction_frontier = Some [[2]]\<rparr>
          :: (string, nat list, nat list list, nat) Index)) k w
     = entries_at
       (inner (\<lparr>inner = [(''key1'', [([2], [(10, 2)])])], compaction_frontier = Some [[2]]\<rparr>
          :: (string, nat list, nat list list, nat) Index)) k w)"
proof -
  let ?S = "\<lparr>inner = [(''key1'', [([2], [(10, 2)])])], compaction_frontier = Some [[2]]\<rparr>
        :: (string, nat list, nat list list, nat) Index"
  let ?S' = "\<lparr>inner = [(''key1'', [([2], [(10, 2)])]), (''key2'', [])],
              compaction_frontier = Some [[2]]\<rparr> :: (string, nat list, nat list list, nat) Index"
  have r: "reconstruct_at vec_order ?S ''key2'' [3] = Inr ([], ?S')" by code_simp
  have n: "\<not> dict_contains ''key2'' (inner ?S)" by code_simp
  from reads_keep_contents [OF r] n r show ?thesis by blast
qed

text \<open>
  Claim C9 as stated fails: on the empty index both reads insert the key, so the
  key-to-versions map after the call differs from the one before.
\<close>

theorem reads_not_read_only_counterexample:
  "versions (\<lparr>inner = [], compaction_frontier = None\<rparr>
              :: (string, nat list, nat list list, nat) Index) ''k''
     = ([], \<lparr>inner = [(''k'', [])], compaction_frontier = None\<rparr>) \<and>
   reconstruct_at vec_order (\<lparr>inner = [], compaction_frontier = None\<rparr>
              :: (string, nat list, nat list list, nat) Index) ''k'' [1]
     = Inr ([], \<lparr>inner = [(''k'', [])], compaction_frontier = None\<rparr>) \<and>
   (\<lparr>inner = [(''k'', [])], compaction_frontier = None\<rparr>
      :: (string, nat list, nat list list, nat) Index)
     \<noteq> \<lparr>inner = [], compaction_frontier = None\<rparr>"
  by code_simp

text \<open>
  Claim C8, amended. For a key under which nothing is stored (absent, or present with an
  empty version dictionary), \<^verbatim>\<open>versions\<close> returns the empty sequence, and
  \<^verbatim>\<open>reconstruct_at\<close> returns the empty sequence whenever the requested version
  passes validation: no compaction frontier is installed, or the installed one is
  below the version.
\<close>

theorem never_written_key_empty:
  assumes "stored_versions (inner self) key = []"
    and "case compaction_frontier self of
           None \<Rightarrow> True
         | Some F \<Rightarrow> antichain_less_equal_version ord F v"
  shows "(\<exists>self'. reconstruct_at ord self key v = Inr ([], self')) \<and>
         fst (versions self key) = []"
  using assms
  by (auto simp: reconstruct_at_unfold versions_unfold validate_def dict_keys_def
      split: option.splits)

theorem never_written_key_empty_witness:
  "stored_versions (inner (\<lparr>inner = [(''key1'', [([2], [(10, 2)])])],
        compaction_frontier = Some [[2]]\<rparr> :: (string, nat list, nat list list, nat) Index))
      ''key2'' = [] \<and>
   antichain_less_equal_version vec_order [[2]] [3] \<and>
   (\<exists>self'. reconstruct_at vec_order
      (\<lparr>inner = [(''key1'', [([2], [(10, 2)])])], compaction_frontier = Some [[2]]\<rparr>
        :: (string, nat list, nat list list, nat) Index) ''key2'' [3] = Inr ([], self')) \<and>
   fst (versions (\<lparr>inner = [(''key1'', [([2], [(10, 2)])])],
        compaction_frontier = Some [[2]]\<rparr> :: (string, nat list, nat list list, nat) Index)
      ''key2'') = []"
proof -
  let ?S = "\<lparr>inner = [(''key1'', [([2], [(10, 2)])])], compaction_frontier = Some [[2]]\<rparr>
        :: (string, nat list, nat list list, nat) Index"
  have a: "stored_versions (inner ?S) ''key2'' = []" by code_simp
  have b: "antichain_less_equal_version vec_order [[2]] [3]" by code_simp
  have c: "case compaction_frontier ?S of None \<Rightarrow> True
           | Some F \<Rightarrow> antichain_less_equal_version vec_order F [3]"
    using b by simp
  from never_written_key_empty [OF a c] a b show ?thesis by blast
qed

text \<open>
  Claim C8 as stated fails: after compacting the empty index to the frontier \<open>{[2]}\<close>,
  \<^verbatim>\<open>reconstruct_at\<close> of a key never written at version \<open>[1]\<close> raises the assertion
  error of \<^verbatim>\<open>_validate\<close>.
\<close>

theorem never_written_key_stale_counterexample:
  "compact vec_order (\<lparr>inner = [], compaction_frontier = None\<rparr>
      :: (string, nat list, nat list list, nat) Index) [[2]] []
     = Inr \<lparr>inner = [], compaction_frontier = Some [[2]]\<rparr> \<and>
   reconstruct_at vec_order (\<lparr>inner = [], compaction_frontier = Some [[2]]\<rparr>
      :: (string, nat list, nat list list, nat) Index) ''k'' [1]
     = Inl AssertionError"
  by code_simp

section \<open>Writing: add_value and append\<close>

lemma stored_versions_dict_setitem:
  "stored_versions (dict_setitem d k vs) key = (if key = k then vs else stored_versions d key)"
  by (simp add: stored_versions_def map_of_dict_setitem)

lemma stored_versions_getitem:
  "stored_versions (snd (defaultdict_getitem [] d k)) key = stored_versions d key"
  by (auto simp: defaultdict_getitem_def stored_versions_vivify dest: map_of_None_contains
      split: option.splits)

lemma fst_defaultdict_getitem:
  "fst (defaultdict_getitem [] d k) = stored_versions d k"
  by (simp add: defaultdict_getitem_def stored_versions_def split: option.splits)

lemma stored_versions_bag_extend:
  "stored_versions (bag_extend d k w data) key =
     (if key = k then defaultdict_extend (stored_versions d k) w data
      else stored_versions d key)"
  using stored_versions_getitem [of d k key] fst_defaultdict_getitem [of d k]
  by (cases "defaultdict_getitem [] d k") (simp add: bag_extend_def stored_versions_dict_setitem)

text \<open>The reconstruction read off a version dictionary.\<close>

lemma reconstruct_extend_mset:
  "mset (concat (map snd (filter (\<lambda>(w, xs). P w) (defaultdict_extend d v data))))
     = mset (concat (map snd (filter (\<lambda>(w, xs). P w) d))) + (if P v then mset data else {#})"
proof (cases "map_of d v")
  case None
  then show ?thesis by (simp add: defaultdict_extend_unfold)
next
  case (Some l)
  then have "mset (concat (map snd (filter (\<lambda>(w, xs). P w) (dict_setitem d v (l @ data)))))
     = mset (concat (map snd (filter (\<lambda>(w, xs). P w) d))) + (if P v then mset data else {#})"
    by (induction d) auto
  with Some show ?thesis by (simp add: defaultdict_extend_unfold)
qed

lemma add_values_no_frontier:
  "compaction_frontier self = None \<Longrightarrow>
   add_values ord adds self =
     Inr (self\<lparr>inner := fold (\<lambda>(k, w, x) d. bag_extend d k w [x]) adds (inner self)\<rparr>)"
proof (induction adds arbitrary: self)
  case Nil
  then show ?case by (simp add: add_values_def)
next
  case (Cons a adds)
  obtain k w x where a: "a = (k, w, x)" by (cases a) auto
  let ?s = "self\<lparr>inner := bag_extend (inner self) k w [x]\<rparr>"
  have "add_value ord self k w x = Inr ?s"
    using Cons.prems by (simp add: add_value_def validate_def)
  moreover have "compaction_frontier ?s = None" using Cons.prems by simp
  ultimately show ?case
    using Cons.IH [of ?s] by (simp add: add_values_def a)
qed

lemma added_under_snoc:
  "added_under (adds @ [(k, w, x)]) key =
     (if key = k then added_under adds key @ [(w, x)] else added_under adds key)"
  by (simp add: added_under_def)

lemma stored_versions_adds:
  "stored_versions (fold (\<lambda>(k, w, x) d. bag_extend d k w [x]) adds []) key
     = group_pairs (added_under adds key)"
proof (induction adds arbitrary: key rule: rev_induct)
  case Nil
  show ?case by (simp add: stored_versions_def group_pairs_def added_under_def)
next
  case (snoc a adds)
  obtain k w x where a: "a = (k, w, x)" by (cases a) auto
  show ?case
    using snoc
    by (simp add: a stored_versions_bag_extend added_under_snoc group_pairs_snoc)
qed

lemma reconstruct_group_pairs_mset:
  "mset (concat (map snd (filter (\<lambda>(w, xs). P w) (group_pairs ps))))
     = mset (map snd (filter (\<lambda>(w, x). P w) ps))"
proof (induction ps rule: rev_induct)
  case Nil
  show ?case by (simp add: group_pairs_def)
next
  case (snoc p ps)
  then show ?case
    by (cases p) (simp add: group_pairs_snoc reconstruct_extend_mset)
qed

text \<open>
  Claim C1, amended. On the index built from the empty one by a sequence of
  \<^verbatim>\<open>add_value\<close> calls, every call succeeds and \<^verbatim>\<open>reconstruct_at\<close> returns the entries
  added under the key at versions \<open>v' \<le> v\<close> grouped by version: the versions in the
  order of their first insertion, and under each version its entries in the order they
  were inserted. As a multiset this is every entry added under the key at a version
  \<open>v' \<le> v\<close>.
\<close>

theorem reconstruct_at_added_entries:
  "\<exists>self self'.
     add_values ord adds Index_init = Inr self \<and>
     reconstruct_at ord self key v = Inr (added_by_version ord adds key v, self') \<and>
     mset (added_by_version ord adds key v) = mset (added_up_to ord adds key v)"
proof -
  let ?d = "fold (\<lambda>(k, w, x) d. bag_extend d k w [x]) adds []"
  let ?s = "Index_init\<lparr>inner := ?d\<rparr>"
  have a: "add_values ord adds Index_init = Inr ?s"
    using add_values_no_frontier [of Index_init ord adds] by (simp add: Index_init_def)
  have r: "reconstruct_at ord ?s key v
             = Inr (added_by_version ord adds key v, snd (versions ?s key))"
    by (simp add: reconstruct_at_unfold validate_def stored_versions_adds added_by_version_def
        Index_init_def)
  have m: "mset (added_by_version ord adds key v) = mset (added_up_to ord adds key v)"
    by (simp add: added_by_version_def added_up_to_def reconstruct_group_pairs_mset)
  from a r m show ?thesis by blast
qed

text \<open>
  Claim C1 as stated fails: with \<open>(10, 1)\<close> added at \<open>[1]\<close>, \<open>(20, 1)\<close> at \<open>[2]\<close> and
  \<open>(30, 1)\<close> at \<open>[1]\<close>, the reconstruction at \<open>[2]\<close> lists both entries of version
  \<open>[1]\<close> before the entry of version \<open>[2]\<close>, which is not the order of insertion.
\<close>

theorem reconstruct_at_insertion_order_counterexample:
  "add_values vec_order
     [(''k'', [1], (10, 1)), (''k'', [2], (20, 1)), (''k'', [1], (30, 1))]
     (Index_init :: (string, nat list, nat list list, nat) Index)
     = Inr \<lparr>inner = [(''k'', [([1], [(10, 1), (30, 1)]), ([2], [(20, 1)])])],
            compaction_frontier = None\<rparr> \<and>
   reconstruct_at vec_order
     (\<lparr>inner = [(''k'', [([1], [(10, 1), (30, 1)]), ([2], [(20, 1)])])],
       compaction_frontier = None\<rparr> :: (string, nat list, nat list list, nat) Index)
     ''k'' [2]
     = Inr ([(10, 1), (30, 1), (20, 1)],
            \<lparr>inner = [(''k'', [([1], [(10, 1), (30, 1)]), ([2], [(20, 1)])])],
              compaction_frontier = None\<rparr>) \<and>
   added_up_to vec_order
     [(''k'', [1], (10::nat, 1::int)), (''k'', [2], (20, 1)), (''k'', [1], (30, 1))]
     ''k'' [2]
     = [(10, 1), (20, 1), (30, 1)] \<and>
   [(10::nat, 1::int), (30, 1), (20, 1)] \<noteq> [(10, 1), (20, 1), (30, 1)]"
  by code_simp

lemma stored_versions_extend_all:
  "stored_versions (fold (\<lambda>(w, data) d'. bag_extend d' k w data) vs d) key =
     (if key = k
      then fold (\<lambda>(w, data) vs'. defaultdict_extend vs' w data) vs (stored_versions d k)
      else stored_versions d key)"
  by (induction vs arbitrary: d) (auto simp: stored_versions_bag_extend)

lemma stored_versions_absent:
  "key \<notin> set (dict_keys d) \<Longrightarrow> stored_versions d key = []"
  by (simp add: stored_versions_def dict_keys_def map_of_eq_None_iff [symmetric])

lemma stored_versions_Cons:
  "stored_versions ((k, vs) # d) key = (if key = k then vs else stored_versions d key)"
  by (simp add: stored_versions_def)

lemma stored_versions_append_index:
  assumes "distinct (dict_keys items)"
  shows "stored_versions
           (fold (\<lambda>(k, vs) d. fold (\<lambda>(w, data) d'. bag_extend d' k w data) vs d) items d0) key
         = fold (\<lambda>(w, data) vs'. defaultdict_extend vs' w data)
             (stored_versions items key) (stored_versions d0 key)"
  using assms
proof (induction items arbitrary: d0)
  case Nil
  show ?case by (simp add: stored_versions_def)
next
  case (Cons item items)
  obtain k vs where item: "item = (k, vs)" by (cases item) auto
  from Cons.prems have d: "distinct (dict_keys items)" and n: "k \<notin> set (dict_keys items)"
    by (simp_all add: item dict_keys_def)
  show ?case
  proof (cases "key = k")
    case True
    then have "stored_versions items key = []"
      using n by (simp add: stored_versions_absent)
    then show ?thesis
      using Cons.IH [OF d] True
      by (simp add: item stored_versions_extend_all stored_versions_Cons)
  next
    case False
    then show ?thesis
      using Cons.IH [OF d]
      by (simp add: item stored_versions_extend_all stored_versions_Cons)
  qed
qed

lemma reconstruct_extend_all_mset:
  "mset (concat (map snd (filter (\<lambda>(w, xs). P w)
           (fold (\<lambda>(w, data) vs'. defaultdict_extend vs' w data) vs vs0))))
     = mset (concat (map snd (filter (\<lambda>(w, xs). P w) vs0)))
       + mset (concat (map snd (filter (\<lambda>(w, xs). P w) vs)))"
  by (induction vs arbitrary: vs0) (auto simp: reconstruct_extend_mset)

lemma reconstruct_at_Inr:
  assumes "reconstruct_at ord self key v = Inr (out, self')"
  shows "validate ord self (Version v) = Inr ()"
    and "out = concat (map snd (filter (\<lambda>(w, xs). version_less_equal ord w v)
                                        (stored_versions (inner self) key)))"
  using assms by (auto simp: reconstruct_at_unfold split: sum.splits)

lemma validate_append_index:
  "validate ord (append_index self other) r = validate ord self r"
  by (simp add: validate_def append_index_def)

lemma append_reconstruct_mset:
  assumes "distinct (dict_keys (inner B))"
    and "validate ord A (Version v) = Inr ()"
  shows "\<exists>rc C. reconstruct_at ord (append_index A B) key v = Inr (rc, C) \<and>
           mset rc
             = mset (concat (map snd (filter (\<lambda>(w, xs). version_less_equal ord w v)
                                        (stored_versions (inner A) key))))
             + mset (concat (map snd (filter (\<lambda>(w, xs). version_less_equal ord w v)
                                        (stored_versions (inner B) key))))"
proof -
  have "inner (append_index A B)
          = fold (\<lambda>(k, vs) d. fold (\<lambda>(w, data) d'. bag_extend d' k w data) vs d)
                 (inner B) (inner A)"
    by (simp add: append_index_def)
  then have "stored_versions (inner (append_index A B)) key
          = fold (\<lambda>(w, data) vs'. defaultdict_extend vs' w data)
              (stored_versions (inner B) key) (stored_versions (inner A) key)"
    using stored_versions_append_index [OF assms(1)] by simp
  then show ?thesis
    using assms(2)
    by (simp add: reconstruct_at_unfold validate_append_index reconstruct_extend_all_mset)
qed

section \<open>Join\<close>

lemma fold_concat_map:
  assumes "\<And>x c. x \<in> set xs \<Longrightarrow> fold f (g x) c = h x c"
  shows "fold f (concat (map g xs)) c = fold h xs c"
  using assms by (induction xs arbitrary: c) auto

lemma join_collections_flat:
  "join_collections ord self other =
     fold (\<lambda>(v, x) c. defaultdict_extend c v [x]) (join_pairs ord self other) []"
  unfolding join_collections_def join_pairs_def
  apply (rule sym)
  apply (rule fold_concat_map)
  apply (clarsimp split: option.splits)
  apply (rule fold_concat_map)
  apply clarsimp
  apply (rule fold_concat_map)
  apply clarsimp
  apply (rule fold_concat_map)
  apply (clarsimp simp: fold_map comp_def case_prod_unfold)
  done

lemma group_pairs_filter_nonempty:
  "filter (\<lambda>(version, c). c \<noteq> []) (group_pairs ps) = group_pairs ps"
  by (rule filter_True) (auto dest: group_pairs_nonempty)

lemma join_group_pairs:
  "join ord self other =
     map (\<lambda>(v, c). (v, Collection c)) (group_pairs (join_pairs ord self other))"
  by (simp add: join_def join_collections_flat collect_group_pairs group_pairs_filter_nonempty)

lemma join_pairs_keys:
  assumes "(v, ((key, vals), m)) \<in> set (join_pairs ord self other)"
  shows "key \<in> set (dict_keys (inner self)) \<and> key \<in> set (dict_keys (inner other))"
proof -
  from assms obtain vs
    where a: "(key, vs) \<in> set (inner self)" and b: "map_of (inner other) key \<noteq> None"
    unfolding join_pairs_def by (fastforce split: option.splits)
  from a have "key \<in> set (dict_keys (inner self))"
    by (force simp: dict_keys_def)
  moreover from b have "key \<in> set (dict_keys (inner other))"
    by (simp add: dict_keys_def map_of_eq_None_iff)
  ultimately show ?thesis by simp
qed

text \<open>
  Claim C2. \<^verbatim>\<open>join\<close> returns the cross product \<open>join_pairs\<close> grouped by result
  version: for every key of the first index that is a key of the second, every entry
  \<open>(value1, multiplicity1)\<close> at \<open>version1\<close> of the first with every entry
  \<open>(value2, multiplicity2)\<close> at \<open>version2\<close> of the second gives the entry
  \<open>((key, (value1, value2)), multiplicity1 * multiplicity2)\<close> in the collection of
  \<open>version1.join(version2)\<close>. Each version occurs once in the output, no collection is
  empty, and every key in the output is a key of both indexes.
\<close>

theorem join_cross_product:
  "join ord self other
     = map (\<lambda>(v, c). (v, Collection c)) (group_pairs (join_pairs ord self other)) \<and>
   distinct (map fst (join ord self other)) \<and>
   Collection [] \<notin> snd ` set (join ord self other) \<and>
   fst ` fst ` set (concat (map (entries \<circ> snd) (join ord self other)))
     \<subseteq> set (dict_keys (inner self)) \<inter> set (dict_keys (inner other))"
proof -
  let ?ps = "join_pairs ord self other"
  have j: "join ord self other = map (\<lambda>(v, c). (v, Collection c)) (group_pairs ?ps)"
    by (rule join_group_pairs)
  have k: "map fst (join ord self other) = first_occurrences (map fst ?ps)"
    by (simp add: j group_pairs_def comp_def)
  have d: "distinct (map fst (join ord self other))"
    by (simp add: k)
  have n: "Collection [] \<notin> snd ` set (join ord self other)"
    by (auto simp: j dest: group_pairs_nonempty)
  have e: "set (concat (map (entries \<circ> snd) (join ord self other))) = snd ` set ?ps"
    by (force simp: j group_pairs_def bucket_def entries_def)
  have s: "fst ` fst ` set (concat (map (entries \<circ> snd) (join ord self other)))
     \<subseteq> set (dict_keys (inner self)) \<inter> set (dict_keys (inner other))"
    unfolding e using join_pairs_keys [of _ _ _ _ ord self other] by fastforce
  from j d n s show ?thesis by blast
qed

text \<open>
  Claim C10. \<^verbatim>\<open>join\<close> neither consolidates nor drops entries: the entries of the
  output collections, each with its version, are exactly the products of the cross
  product, as many times as they are produced. In the example an input entry of
  multiplicity 0 gives a product of multiplicity 0, and two products that cancel
  (3 and -3 for the same key and values) both stay in the collection.
\<close>

theorem join_keeps_every_product:
  "mset (concat (map (\<lambda>(v, c). map (Pair v) (entries c)) (join ord self other)))
     = mset (join_pairs ord self other) \<and>
   join vec_order
     (\<lparr>inner = [(''k'', [([1], [(10, 0), (11, 1), (11, - 1)])])], compaction_frontier = None\<rparr>
        :: (string, nat list, nat list list, nat) Index)
     (\<lparr>inner = [(''k'', [([1], [(20, 3)])])], compaction_frontier = None\<rparr>
        :: (string, nat list, nat list list, nat) Index)
     = [([1], Collection [((''k'', (10, 20)), 0), ((''k'', (11, 20)), 3),
                          ((''k'', (11, 20)), - 3)])]"
proof -
  have "concat (map (\<lambda>(v, c). map (Pair v) (entries c)) (join ord self other))
          = flatten (group_pairs (join_pairs ord self other))"
    by (simp add: join_group_pairs flatten_def entries_def comp_def case_prod_unfold)
  then have a: "mset (concat (map (\<lambda>(v, c). map (Pair v) (entries c)) (join ord self other)))
     = mset (join_pairs ord self other)"
    by (simp add: flatten_group_pairs)
  have b: "join vec_order
     (\<lparr>inner = [(''k'', [([1], [(10, 0), (11, 1), (11, - 1)])])], compaction_frontier = None\<rparr>
        :: (string, nat list, nat list list, nat) Index)
     (\<lparr>inner = [(''k'', [([1], [(20, 3)])])], compaction_frontier = None\<rparr>
        :: (string, nat list, nat list list, nat) Index)
     = [([1], Collection [((''k'', (10, 20)), 0), ((''k'', (11, 20)), 3),
                          ((''k'', (11, 20)), - 3)])]"
    by code_simp
  from a b show ?thesis by blast
qed

section \<open>Compacting again with the same frontier\<close>

text \<open>
  The two inner loops of \<^verbatim>\<open>compact\<close> on one version dictionary: which versions are
  left after the first loop, and that the second loop keeps the set of versions.
\<close>

lemma dict_keys_dict_delete: "dict_keys (dict_delete d k) = removeAll k (dict_keys d)"
  by (induction d) (auto simp: dict_delete_def dict_keys_def)

lemma map_of_dict_delete: "map_of (dict_delete d k) = (map_of d)(k := None)"
  by (induction d) (auto simp: dict_delete_def fun_eq_iff)

lemma dict_pop_Inr:
  "dict_pop d k = Inr (b, d') \<Longrightarrow> map_of d k = Some b \<and> d' = dict_delete d k"
  by (auto simp: dict_pop_def split: option.splits)

lemma dict_pop_present:
  "k \<in> set (dict_keys d) \<Longrightarrow> \<exists>b. dict_pop d k = Inr (b, dict_delete d k) \<and> map_of d k = Some b"
  using map_of_eq_None_iff [of d k]
  by (auto simp: dict_pop_def dict_keys_def split: option.splits)

lemma dict_keys_defaultdict_extend:
  "dict_keys (defaultdict_extend d k data) =
     (if k \<in> set (dict_keys d) then dict_keys d else dict_keys d @ [k])"
proof (cases "map_of d k")
  case None
  then have "k \<notin> set (dict_keys d)" by (simp add: dict_keys_def map_of_eq_None_iff)
  with None show ?thesis by (simp add: defaultdict_extend_unfold dict_keys_def)
next
  case (Some l)
  then have "k \<in> set (dict_keys d)"
    using map_of_eq_None_iff [of d k] by (simp add: dict_keys_def)
  with Some show ?thesis by (simp add: defaultdict_extend_unfold dict_keys_dict_setitem)
qed

lemma map_of_defaultdict_extend:
  "map_of (defaultdict_extend d k data) =
     (map_of d)(k \<mapsto> (case map_of d k of None \<Rightarrow> [] | Some l \<Rightarrow> l) @ data)"
  by (cases "map_of d k")
     (auto simp: defaultdict_extend_unfold map_of_dict_setitem fun_eq_iff map_of_append
       map_add_def split: option.splits)

lemma compact_move_Cons:
  "for_each (compact_move ord F) (u # tc) (vs, c) =
     (case dict_pop vs u of
        Inl e \<Rightarrow> Inl e
      | Inr (vals, vs1) \<Rightarrow>
          for_each (compact_move ord F) tc
            (defaultdict_extend vs1 (version_advance_by ord u F) vals,
             set_add c (version_advance_by ord u F)))"
  by (simp add: compact_move_def Let_def split: sum.splits prod.splits)

lemma compact_consolidate_Cons:
  "for_each compact_consolidate (u # tc) vs =
     (case dict_pop vs u of
        Inl e \<Rightarrow> Inl e
      | Inr (vals, vs1) \<Rightarrow>
          for_each compact_consolidate tc (dict_setitem vs1 u (consolidate_values vals)))"
  by (simp add: compact_consolidate_def split: sum.splits prod.splits)

lemma compact_moves_keys:
  "for_each (compact_move ord F) tc (vs, c) = Inr (vs', c') \<Longrightarrow>
   set (dict_keys vs') \<subseteq>
     (set (dict_keys vs) - set tc) \<union> (\<lambda>u. version_advance_by ord u F) ` set tc"
proof (induction tc arbitrary: vs c)
  case Nil
  then show ?case by simp
next
  case (Cons u tc)
  from Cons.prems [unfolded compact_move_Cons] obtain vals vs1
    where pop: "dict_pop vs u = Inr (vals, vs1)"
      and rest: "for_each (compact_move ord F) tc
            (defaultdict_extend vs1 (version_advance_by ord u F) vals,
             set_add c (version_advance_by ord u F)) = Inr (vs', c')"
    by (auto split: sum.splits)
  from dict_pop_Inr [OF pop] have vs1: "vs1 = dict_delete vs u" by simp
  have "set (dict_keys (defaultdict_extend vs1 (version_advance_by ord u F) vals))
          = insert (version_advance_by ord u F) (set (dict_keys vs) - {u})"
    by (auto simp: dict_keys_defaultdict_extend vs1 dict_keys_dict_delete)
  with Cons.IH [OF rest] show ?case by auto
qed

lemma compact_moves_distinct:
  "for_each (compact_move ord F) tc (vs, c) = Inr (vs', c') \<Longrightarrow>
   distinct (dict_keys vs) \<Longrightarrow> distinct (dict_keys vs')"
proof (induction tc arbitrary: vs c)
  case Nil
  then show ?case by simp
next
  case (Cons u tc)
  from Cons.prems(1) [unfolded compact_move_Cons] obtain vals vs1
    where pop: "dict_pop vs u = Inr (vals, vs1)"
      and rest: "for_each (compact_move ord F) tc
            (defaultdict_extend vs1 (version_advance_by ord u F) vals,
             set_add c (version_advance_by ord u F)) = Inr (vs', c')"
    by (auto split: sum.splits)
  from dict_pop_Inr [OF pop] have vs1: "vs1 = dict_delete vs u" by simp
  have "distinct (dict_keys (defaultdict_extend vs1 (version_advance_by ord u F) vals))"
    using Cons.prems(2)
    by (simp add: dict_keys_defaultdict_extend vs1 dict_keys_dict_delete distinct_removeAll)
  with Cons.IH [OF rest] show ?case by simp
qed

lemma compact_consolidates_keys:
  "for_each compact_consolidate tc vs = Inr vs' \<Longrightarrow>
   set (dict_keys vs') = set (dict_keys vs) \<and>
   (distinct (dict_keys vs) \<longrightarrow> distinct (dict_keys vs'))"
proof (induction tc arbitrary: vs)
  case Nil
  then show ?case by simp
next
  case (Cons u tc)
  from Cons.prems [unfolded compact_consolidate_Cons] obtain vals vs1
    where pop: "dict_pop vs u = Inr (vals, vs1)"
      and rest: "for_each compact_consolidate tc
                   (dict_setitem vs1 u (consolidate_values vals)) = Inr vs'"
    by (auto split: sum.splits)
  from dict_pop_Inr [OF pop] have vs1: "vs1 = dict_delete vs u"
    and u: "u \<in> set (dict_keys vs)"
    using map_of_eq_None_iff [of vs u] by (auto simp: dict_keys_def)
  have "set (dict_keys (dict_setitem vs1 u (consolidate_values vals))) = set (dict_keys vs)"
    using u by (auto simp: dict_keys_dict_setitem vs1 dict_keys_dict_delete)
  moreover have "distinct (dict_keys vs) \<longrightarrow>
      distinct (dict_keys (dict_setitem vs1 u (consolidate_values vals)))"
    by (simp add: dict_keys_dict_setitem vs1 dict_keys_dict_delete distinct_removeAll)
  ultimately show ?case using Cons.IH [OF rest] by simp
qed

lemma compact_key_Inr:
  assumes "compact_key ord F key d = Inr d'"
  obtains vs1 c vs2 where
    "for_each (compact_move ord F)
       (filter (\<lambda>version. \<not> antichain_less_equal_version ord F version)
          (dict_keys (stored_versions d key)))
       (stored_versions d key, []) = Inr (vs1, c)"
    and "for_each compact_consolidate c vs1 = Inr vs2"
    and "d' = dict_setitem (snd (defaultdict_getitem [] d key)) key vs2"
  using assms fst_defaultdict_getitem [of d key]
  by (cases "defaultdict_getitem [] d key")
     (auto simp: compact_key_def Let_def split: sum.splits prod.splits)

lemma compact_key_other:
  assumes "compact_key ord F key d = Inr d'" and "k \<noteq> key"
  shows "stored_versions d' k = stored_versions d k"
  using assms(1)
proof (rule compact_key_Inr)
  fix vs1 c vs2
  assume "d' = dict_setitem (snd (defaultdict_getitem [] d key)) key vs2"
  then show ?thesis
    using assms(2) by (simp add: stored_versions_dict_setitem stored_versions_getitem)
qed

lemma compact_key_versions:
  assumes "compact_key ord F key d = Inr d'"
  shows "set (dict_keys (stored_versions d' key)) \<subseteq>
           {w \<in> set (dict_keys (stored_versions d key)). antichain_less_equal_version ord F w}
           \<union> (\<lambda>u. version_advance_by ord u F) `
               {u \<in> set (dict_keys (stored_versions d key)).
                  \<not> antichain_less_equal_version ord F u}"
    and "distinct (dict_keys (stored_versions d key)) \<Longrightarrow>
         distinct (dict_keys (stored_versions d' key))"
proof -
  from assms obtain vs1 c vs2 where
    m: "for_each (compact_move ord F)
       (filter (\<lambda>version. \<not> antichain_less_equal_version ord F version)
          (dict_keys (stored_versions d key)))
       (stored_versions d key, []) = Inr (vs1, c)"
    and co: "for_each compact_consolidate c vs1 = Inr vs2"
    and d': "d' = dict_setitem (snd (defaultdict_getitem [] d key)) key vs2"
    by (rule compact_key_Inr)
  have s: "stored_versions d' key = vs2"
    by (simp add: d' stored_versions_dict_setitem)
  from compact_consolidates_keys [OF co] have k2: "set (dict_keys vs2) = set (dict_keys vs1)"
    and d2: "distinct (dict_keys vs1) \<longrightarrow> distinct (dict_keys vs2)" by simp_all
  from compact_moves_keys [OF m] k2
  show "set (dict_keys (stored_versions d' key)) \<subseteq>
           {w \<in> set (dict_keys (stored_versions d key)). antichain_less_equal_version ord F w}
           \<union> (\<lambda>u. version_advance_by ord u F) `
               {u \<in> set (dict_keys (stored_versions d key)).
                  \<not> antichain_less_equal_version ord F u}"
    unfolding s by auto
  show "distinct (dict_keys (stored_versions d' key))"
    if "distinct (dict_keys (stored_versions d key))"
    using compact_moves_distinct [OF m that] d2 by (simp add: s)
qed

lemma settled_advance_settles: "settled ord F w \<Longrightarrow> advance_settles ord F w"
  by (auto simp: settled_def advance_settles_def)

lemma compact_key_settles:
  assumes "compact_key ord F key d = Inr d'"
    and "\<forall>u \<in> set (dict_keys (stored_versions d key)). advance_settles ord F u"
  shows "\<forall>w \<in> set (dict_keys (stored_versions d' key)). settled ord F w"
proof
  fix w
  assume "w \<in> set (dict_keys (stored_versions d' key))"
  with compact_key_versions(1) [OF assms(1)]
  consider "antichain_less_equal_version ord F w"
    | u where "u \<in> set (dict_keys (stored_versions d key))"
        "\<not> antichain_less_equal_version ord F u" "w = version_advance_by ord u F"
    by auto
  then show "settled ord F w"
  proof cases
    case 1
    then show ?thesis by (simp add: settled_def)
  next
    case 2
    with assms(2) show ?thesis by (auto simp: advance_settles_def)
  qed
qed

lemma compact_keys_settle:
  assumes "for_each (compact_key ord F) keys d = Inr d'"
    and "\<forall>k. \<forall>u \<in> set (dict_keys (stored_versions d k)). advance_settles ord F u"
    and "\<forall>k. distinct (dict_keys (stored_versions d k))"
  shows "(\<forall>k. (k \<in> set keys \<or> (\<forall>w \<in> set (dict_keys (stored_versions d k)). settled ord F w))
              \<longrightarrow> (\<forall>w \<in> set (dict_keys (stored_versions d' k)). settled ord F w)) \<and>
         (\<forall>k. distinct (dict_keys (stored_versions d' k)))"
  using assms
proof (induction keys arbitrary: d)
  case Nil
  then show ?case by simp
next
  case (Cons key keys)
  from Cons.prems(1) obtain d1
    where k1: "compact_key ord F key d = Inr d1"
      and rest: "for_each (compact_key ord F) keys d1 = Inr d'"
    by (auto split: sum.splits)
  have other: "stored_versions d1 k = stored_versions d k" if "k \<noteq> key" for k
    using compact_key_other [OF k1 that] .
  have st: "\<forall>w \<in> set (dict_keys (stored_versions d1 key)). settled ord F w"
    using compact_key_settles [OF k1] Cons.prems(2) by blast
  have a1: "\<forall>k. \<forall>u \<in> set (dict_keys (stored_versions d1 k)). advance_settles ord F u"
  proof
    fix k
    show "\<forall>u \<in> set (dict_keys (stored_versions d1 k)). advance_settles ord F u"
    proof (cases "k = key")
      case True
      with st show ?thesis by (auto intro: settled_advance_settles)
    next
      case False
      with other Cons.prems(2) show ?thesis by simp
    qed
  qed
  have d1: "\<forall>k. distinct (dict_keys (stored_versions d1 k))"
  proof
    fix k
    show "distinct (dict_keys (stored_versions d1 k))"
    proof (cases "k = key")
      case True
      with compact_key_versions(2) [OF k1] Cons.prems(3) show ?thesis by simp
    next
      case False
      with other Cons.prems(3) show ?thesis by simp
    qed
  qed
  note ih = Cons.IH [OF rest a1 d1]
  have "\<forall>w \<in> set (dict_keys (stored_versions d' k)). settled ord F w"
    if "k \<in> set (key # keys) \<or> (\<forall>w \<in> set (dict_keys (stored_versions d k)). settled ord F w)"
    for k
  proof (cases "k = key")
    case True
    with st ih show ?thesis by blast
  next
    case False
    with that other have
      "k \<in> set keys \<or> (\<forall>w \<in> set (dict_keys (stored_versions d1 k)). settled ord F w)"
      by auto
    with ih show ?thesis by blast
  qed
  with ih show ?case by blast
qed

lemma set_set_add: "set (set_add c x) = insert x (set c)"
  by (auto simp: set_add_def)

lemma compact_moves_fixed:
  assumes "set tc \<subseteq> set (dict_keys vs)"
    and "\<forall>u \<in> set tc. version_advance_by ord u F = u"
  shows "\<exists>vs' c'. for_each (compact_move ord F) tc (vs, c) = Inr (vs', c') \<and>
           map_of vs' = map_of vs \<and>
           set (dict_keys vs') = set (dict_keys vs) \<and>
           set c' = set c \<union> set tc \<and>
           (distinct (dict_keys vs) \<longrightarrow> distinct (dict_keys vs'))"
  using assms
proof (induction tc arbitrary: vs c)
  case Nil
  then show ?case by simp
next
  case (Cons u tc)
  from Cons.prems have u: "u \<in> set (dict_keys vs)" and fx: "version_advance_by ord u F = u"
    by simp_all
  from dict_pop_present [OF u] obtain vals
    where pop: "dict_pop vs u = Inr (vals, dict_delete vs u)" and m: "map_of vs u = Some vals"
    by blast
  let ?vs1 = "defaultdict_extend (dict_delete vs u) u vals"
  have mo: "map_of ?vs1 = map_of vs"
    using m by (auto simp: map_of_defaultdict_extend map_of_dict_delete fun_eq_iff)
  have ks: "set (dict_keys ?vs1) = set (dict_keys vs)"
    using u by (auto simp: dict_keys_defaultdict_extend dict_keys_dict_delete)
  have di: "distinct (dict_keys vs) \<longrightarrow> distinct (dict_keys ?vs1)"
    by (simp add: dict_keys_defaultdict_extend dict_keys_dict_delete distinct_removeAll)
  have sub: "set tc \<subseteq> set (dict_keys ?vs1)" using Cons.prems(1) ks by simp
  have fxs: "\<forall>u \<in> set tc. version_advance_by ord u F = u" using Cons.prems(2) by simp
  from Cons.IH [OF sub fxs, of "set_add c u"] obtain vs' c'
    where r: "for_each (compact_move ord F) tc (?vs1, set_add c u) = Inr (vs', c')"
      and r1: "map_of vs' = map_of ?vs1"
      and r2: "set (dict_keys vs') = set (dict_keys ?vs1)"
      and r3: "set c' = set (set_add c u) \<union> set tc"
      and r4: "distinct (dict_keys ?vs1) \<longrightarrow> distinct (dict_keys vs')"
    by blast
  have "for_each (compact_move ord F) (u # tc) (vs, c) = Inr (vs', c')"
    unfolding compact_move_Cons by (simp add: pop fx r)
  with r1 r2 r3 r4 mo ks di show ?case
    by (auto simp: set_set_add)
qed

lemma compact_consolidates_present:
  assumes "set tc \<subseteq> set (dict_keys vs)"
  shows "\<exists>vs'. for_each compact_consolidate tc vs = Inr vs' \<and>
           (\<forall>w. w \<notin> set tc \<longrightarrow> map_of vs' w = map_of vs w)"
  using assms
proof (induction tc arbitrary: vs)
  case Nil
  then show ?case by simp
next
  case (Cons u tc)
  from Cons.prems have u: "u \<in> set (dict_keys vs)" by simp
  from dict_pop_present [OF u] obtain vals
    where pop: "dict_pop vs u = Inr (vals, dict_delete vs u)"
    by blast
  let ?vs1 = "dict_setitem (dict_delete vs u) u (consolidate_values vals)"
  have ks: "set (dict_keys ?vs1) = set (dict_keys vs)"
    using u by (auto simp: dict_keys_dict_setitem dict_keys_dict_delete)
  have mo: "map_of ?vs1 w = map_of vs w" if "w \<noteq> u" for w
    using that by (simp add: map_of_dict_setitem map_of_dict_delete)
  have sub: "set tc \<subseteq> set (dict_keys ?vs1)" using Cons.prems ks by simp
  from Cons.IH [OF sub] obtain vs'
    where r: "for_each compact_consolidate tc ?vs1 = Inr vs'"
      and r1: "\<forall>w. w \<notin> set tc \<longrightarrow> map_of vs' w = map_of ?vs1 w"
    by blast
  have "for_each compact_consolidate (u # tc) vs = Inr vs'"
    unfolding compact_consolidate_Cons by (simp add: pop r)
  with r1 mo show ?case by auto
qed

lemma compact_key_settled:
  assumes "\<forall>w \<in> set (dict_keys (stored_versions d key)). settled ord F w"
    and "distinct (dict_keys (stored_versions d key))"
  shows "\<exists>d'. compact_key ord F key d = Inr d' \<and>
           (\<forall>w. antichain_less_equal_version ord F w \<longrightarrow>
                  map_of (stored_versions d' key) w = map_of (stored_versions d key) w) \<and>
           set (dict_keys (stored_versions d' key)) = set (dict_keys (stored_versions d key)) \<and>
           distinct (dict_keys (stored_versions d' key))"
proof -
  let ?vs = "stored_versions d key"
  let ?tc = "filter (\<lambda>version. \<not> antichain_less_equal_version ord F version) (dict_keys ?vs)"
  have sub: "set ?tc \<subseteq> set (dict_keys ?vs)" by auto
  have fx: "\<forall>u \<in> set ?tc. version_advance_by ord u F = u"
    using assms(1) by (auto simp: settled_def)
  from compact_moves_fixed [OF sub fx, of "[]"] obtain vs1 c
    where m: "for_each (compact_move ord F) ?tc (?vs, []) = Inr (vs1, c)"
      and m1: "map_of vs1 = map_of ?vs"
      and m2: "set (dict_keys vs1) = set (dict_keys ?vs)"
      and m3: "set c = set ?tc"
      and m4: "distinct (dict_keys vs1)"
    using assms(2) by auto
  have csub: "set c \<subseteq> set (dict_keys vs1)" using m2 m3 by auto
  from compact_consolidates_present [OF csub] obtain vs2
    where co: "for_each compact_consolidate c vs1 = Inr vs2"
      and c1: "\<forall>w. w \<notin> set c \<longrightarrow> map_of vs2 w = map_of vs1 w"
    by blast
  from compact_consolidates_keys [OF co] m4
  have c2: "set (dict_keys vs2) = set (dict_keys vs1)" and c3: "distinct (dict_keys vs2)"
    by simp_all
  let ?d' = "dict_setitem (snd (defaultdict_getitem [] d key)) key vs2"
  have ck: "compact_key ord F key d = Inr ?d'"
    using m co fst_defaultdict_getitem [of d key]
    by (cases "defaultdict_getitem [] d key") (simp add: compact_key_def Let_def)
  have s: "stored_versions ?d' key = vs2"
    by (simp add: stored_versions_dict_setitem)
  have "map_of vs2 w = map_of ?vs w" if "antichain_less_equal_version ord F w" for w
    using that c1 m1 m3 by simp
  with ck s c2 c3 m2 show ?thesis by auto
qed

lemma compact_keys_settled:
  assumes "\<forall>k. \<forall>w \<in> set (dict_keys (stored_versions d k)). settled ord F w"
    and "\<forall>k. distinct (dict_keys (stored_versions d k))"
  shows "\<exists>d'. for_each (compact_key ord F) keys d = Inr d' \<and>
           (\<forall>k w. antichain_less_equal_version ord F w \<longrightarrow>
                    map_of (stored_versions d' k) w = map_of (stored_versions d k) w)"
  using assms
proof (induction keys arbitrary: d)
  case Nil
  then show ?case by simp
next
  case (Cons key keys)
  from Cons.prems have "\<forall>w \<in> set (dict_keys (stored_versions d key)). settled ord F w"
    and "distinct (dict_keys (stored_versions d key))" by simp_all
  from compact_key_settled [OF this] obtain d1
    where k1: "compact_key ord F key d = Inr d1"
      and e1: "\<forall>w. antichain_less_equal_version ord F w \<longrightarrow>
                  map_of (stored_versions d1 key) w = map_of (stored_versions d key) w"
      and s1: "set (dict_keys (stored_versions d1 key)) = set (dict_keys (stored_versions d key))"
      and i1: "distinct (dict_keys (stored_versions d1 key))"
    by blast
  have other: "stored_versions d1 k = stored_versions d k" if "k \<noteq> key" for k
    using compact_key_other [OF k1 that] .
  have a1: "\<forall>k. \<forall>w \<in> set (dict_keys (stored_versions d1 k)). settled ord F w"
  proof
    fix k
    show "\<forall>w \<in> set (dict_keys (stored_versions d1 k)). settled ord F w"
      using Cons.prems(1) s1 other by (cases "k = key") auto
  qed
  have d1: "\<forall>k. distinct (dict_keys (stored_versions d1 k))"
  proof
    fix k
    show "distinct (dict_keys (stored_versions d1 k))"
      using Cons.prems(2) i1 other by (cases "k = key") auto
  qed
  from Cons.IH [OF a1 d1] obtain d'
    where r: "for_each (compact_key ord F) keys d1 = Inr d'"
      and e: "\<forall>k w. antichain_less_equal_version ord F w \<longrightarrow>
                    map_of (stored_versions d' k) w = map_of (stored_versions d1 k) w"
    by blast
  have "map_of (stored_versions d' k) w = map_of (stored_versions d k) w"
    if "antichain_less_equal_version ord F w" for k w
    using that e e1 other by (cases "k = key") auto
  moreover have "for_each (compact_key ord F) (key # keys) d = Inr d'"
    by (simp add: k1 r)
  ultimately show ?case by blast
qed

lemma stored_versions_member:
  "stored_versions d k \<noteq> [] \<Longrightarrow> (k, stored_versions d k) \<in> set d"
  by (auto simp: stored_versions_def split: option.splits dest: map_of_SomeD)

lemma wf_index_stored_versions:
  "wf_index self \<Longrightarrow> distinct (dict_keys (stored_versions (inner self) k))"
proof (cases "stored_versions (inner self) k = []")
  case True
  then show ?thesis by (simp add: dict_keys_def)
next
  case False
  assume "wf_index self"
  with stored_versions_member [OF False] show ?thesis
    by (auto simp: wf_index_def list_all_iff)
qed

lemma all_versions_stored_versions:
  "u \<in> set (dict_keys (stored_versions (inner self) k)) \<Longrightarrow> u \<in> set (all_versions self)"
proof -
  assume u: "u \<in> set (dict_keys (stored_versions (inner self) k))"
  then have "stored_versions (inner self) k \<noteq> []" by (auto simp: dict_keys_def)
  from stored_versions_member [OF this] u show ?thesis
    by (force simp: all_versions_def)
qed

lemma compact_Inr:
  assumes "compact ord self F keys = Inr self1"
  shows "compaction_frontier self1 = Some F"
    and "for_each (compact_key ord F) (if keys = [] then dict_keys (inner self) else keys)
           (inner self) = Inr (inner self1)"
  using assms
  by (auto simp: compact_def Let_def split: sum.splits option.splits if_splits)

text \<open>
  Claim C7. Let \<^verbatim>\<open>compact(F)\<close> have returned on a well-formed index, where the
  frontier order is reflexive at \<open>F\<close> and every stored version advances to a settled
  version (one at or beyond \<open>F\<close>, or one that advancing leaves where it is). Then
  \<^verbatim>\<open>compact(F)\<close> called again returns, keeps \<open>F\<close> as the frontier, and leaves under
  every key the bag stored at every version at or beyond \<open>F\<close> as it was.
\<close>

theorem compact_again_keeps_advanced:
  assumes "wf_index self"
    and "antichain_less_equal ord F F"
    and "\<forall>u \<in> set (all_versions self). settled ord F (version_advance_by ord u F)"
    and "compact ord self F [] = Inr self1"
  shows "\<exists>self2. compact ord self1 F [] = Inr self2 \<and>
           compaction_frontier self2 = Some F \<and>
           (\<forall>key w. antichain_less_equal_version ord F w \<longrightarrow>
                      map_of (stored_versions (inner self2) key) w
                        = map_of (stored_versions (inner self1) key) w)"
proof -
  let ?d = "inner self"
  note c = compact_Inr [OF assms(4)]
  have pass1: "for_each (compact_key ord F) (dict_keys ?d) ?d = Inr (inner self1)"
    using c(2) by (cases "dict_keys ?d = []") simp_all
  have adv: "\<forall>k. \<forall>u \<in> set (dict_keys (stored_versions ?d k)). advance_settles ord F u"
    using assms(3) all_versions_stored_versions [of _ self]
    by (auto simp: advance_settles_def)
  have dist: "\<forall>k. distinct (dict_keys (stored_versions ?d k))"
    using wf_index_stored_versions [OF assms(1)] by simp
  note p = compact_keys_settle [OF pass1 adv dist]
  have st1: "\<forall>k. \<forall>w \<in> set (dict_keys (stored_versions (inner self1) k)). settled ord F w"
  proof
    fix k
    show "\<forall>w \<in> set (dict_keys (stored_versions (inner self1) k)). settled ord F w"
    proof (cases "k \<in> set (dict_keys ?d)")
      case True
      with p show ?thesis by blast
    next
      case False
      then have "stored_versions ?d k = []" by (rule stored_versions_absent)
      then have "\<forall>w \<in> set (dict_keys (stored_versions ?d k)). settled ord F w"
        by (simp add: dict_keys_def)
      with p show ?thesis by blast
    qed
  qed
  have di1: "\<forall>k. distinct (dict_keys (stored_versions (inner self1) k))"
    using p by blast
  from compact_keys_settled [OF st1 di1,
      of "if [] = ([] :: 'c list) then dict_keys (inner self1) else []"]
  obtain d2 where
    pass2: "for_each (compact_key ord F) (dict_keys (inner self1)) (inner self1) = Inr d2"
    and keep: "\<forall>k w. antichain_less_equal_version ord F w \<longrightarrow>
                 map_of (stored_versions d2 k) w = map_of (stored_versions (inner self1) k) w"
    by auto
  have "compact ord self1 F [] = Inr (self1\<lparr>inner := d2, compaction_frontier := Some F\<rparr>)"
    using c(1) assms(2) pass2 by (simp add: compact_def validate_def Let_def)
  with keep show ?thesis by simp
qed

theorem compact_again_keeps_advanced_witness:
  "wf_index (\<lparr>inner = [(''key1'', [([1], [(10, 1), (10, 2)]), ([2], [(10, - 1)])])],
       compaction_frontier = None\<rparr> :: (string, nat list, nat list list, nat) Index) \<and>
   antichain_less_equal vec_order [[2]] [[2]] \<and>
   list_all (\<lambda>u. settled vec_order [[2]] (version_advance_by vec_order u [[2]]))
     (all_versions (\<lparr>inner = [(''key1'', [([1], [(10, 1), (10, 2)]), ([2], [(10, - 1)])])],
       compaction_frontier = None\<rparr> :: (string, nat list, nat list list, nat) Index)) \<and>
   compact vec_order
     (\<lparr>inner = [(''key1'', [([1], [(10, 1), (10, 2)]), ([2], [(10, - 1)])])],
       compaction_frontier = None\<rparr> :: (string, nat list, nat list list, nat) Index) [[2]] []
     = Inr \<lparr>inner = [(''key1'', [([2], [(10, 2)])])], compaction_frontier = Some [[2]]\<rparr> \<and>
   (\<exists>self2. compact vec_order
       (\<lparr>inner = [(''key1'', [([2], [(10, 2)])])], compaction_frontier = Some [[2]]\<rparr>
          :: (string, nat list, nat list list, nat) Index) [[2]] [] = Inr self2 \<and>
      compaction_frontier self2 = Some [[2]] \<and>
      (\<forall>key w. antichain_less_equal_version vec_order [[2]] w \<longrightarrow>
         map_of (stored_versions (inner self2) key) w
           = map_of (stored_versions [(''key1'', [([2], [(10, 2)])])] key) w))"
proof -
  let ?S = "\<lparr>inner = [(''key1'', [([1], [(10, 1), (10, 2)]), ([2], [(10, - 1)])])],
       compaction_frontier = None\<rparr> :: (string, nat list, nat list list, nat) Index"
  let ?S1 = "\<lparr>inner = [(''key1'', [([2], [(10, 2)])])], compaction_frontier = Some [[2]]\<rparr>
          :: (string, nat list, nat list list, nat) Index"
  have w: "wf_index ?S" by code_simp
  have r: "antichain_less_equal vec_order [[2]] [[2]]" by code_simp
  have l: "list_all (\<lambda>u. settled vec_order [[2]] (version_advance_by vec_order u [[2]]))
     (all_versions ?S)" by code_simp
  then have a: "\<forall>u \<in> set (all_versions ?S).
      settled vec_order [[2]] (version_advance_by vec_order u [[2]])"
    by (simp add: list_all_iff)
  have c: "compact vec_order ?S [[2]] [] = Inr ?S1" by code_simp
  from compact_again_keeps_advanced [OF w r a c] have
    "\<exists>self2. compact vec_order ?S1 [[2]] [] = Inr self2 \<and>
      compaction_frontier self2 = Some [[2]] \<and>
      (\<forall>key w. antichain_less_equal_version vec_order [[2]] w \<longrightarrow>
         map_of (stored_versions (inner self2) key) w
           = map_of (stored_versions [(''key1'', [([2], [(10, 2)])])] key) w)"
    by simp
  with w r l c show ?thesis by blast
qed

section \<open>The dictionary invariant\<close>

text \<open>
  The well-formedness assumed of an index above is the invariant of its dictionaries:
  it holds of the empty index and every operation of the index keeps it.
\<close>

lemma wf_index_iff:
  "wf_index self \<longleftrightarrow>
     distinct (dict_keys (inner self)) \<and>
     (\<forall>k. distinct (dict_keys (stored_versions (inner self) k)))"
proof
  assume w: "wf_index self"
  then show "distinct (dict_keys (inner self)) \<and>
     (\<forall>k. distinct (dict_keys (stored_versions (inner self) k)))"
    using wf_index_stored_versions [OF w] by (simp add: wf_index_def)
next
  assume a: "distinct (dict_keys (inner self)) \<and>
     (\<forall>k. distinct (dict_keys (stored_versions (inner self) k)))"
  have "distinct (dict_keys vs)" if "(k, vs) \<in> set (inner self)" for k vs
  proof -
    from that a have "map_of (inner self) k = Some vs"
      by (simp add: dict_keys_def)
    then have "stored_versions (inner self) k = vs" by (simp add: stored_versions_def)
    with a show ?thesis by metis
  qed
  with a show "wf_index self"
    by (auto simp: wf_index_def list_all_iff)
qed

lemma wf_index_init: "wf_index Index_init"
  by (simp add: wf_index_def Index_init_def dict_keys_def)

lemma dict_keys_getitem:
  "dict_keys (snd (defaultdict_getitem dflt d k)) =
     (if k \<in> set (dict_keys d) then dict_keys d else dict_keys d @ [k])"
  using map_of_eq_None_iff [of d k]
  by (auto simp: defaultdict_getitem_def dict_keys_def split: option.splits)

lemma dict_keys_bag_extend:
  "dict_keys (bag_extend d k w data) =
     (if k \<in> set (dict_keys d) then dict_keys d else dict_keys d @ [k])"
  using dict_keys_getitem [of "[]" d k]
  by (cases "defaultdict_getitem [] d k")
     (auto simp: bag_extend_def dict_keys_dict_setitem)

lemma wf_bag_extend:
  assumes "distinct (dict_keys d)" and "\<forall>k. distinct (dict_keys (stored_versions d k))"
  shows "distinct (dict_keys (bag_extend d key w data)) \<and>
         (\<forall>k. distinct (dict_keys (stored_versions (bag_extend d key w data) k)))"
  using assms
  by (simp add: dict_keys_bag_extend stored_versions_bag_extend dict_keys_defaultdict_extend)

lemma wf_index_add_value:
  assumes "add_value ord self key version value = Inr self'" and "wf_index self"
  shows "wf_index self'"
proof -
  from assms(1) have "self' = self\<lparr>inner := bag_extend (inner self) key version [value]\<rparr>"
    by (auto simp: add_value_def split: sum.splits)
  with assms(2) wf_bag_extend [of "inner self" key version "[value]"] show ?thesis
    by (simp add: wf_index_iff)
qed

lemma wf_index_append_index:
  assumes "wf_index self"
  shows "wf_index (append_index self other)"
proof -
  have inner_fold:
    "distinct (dict_keys (fold (\<lambda>(w, data) d'. bag_extend d' k w data) vs d)) \<and>
     (\<forall>k'. distinct (dict_keys (stored_versions
              (fold (\<lambda>(w, data) d'. bag_extend d' k w data) vs d) k')))"
    if "distinct (dict_keys d)" and "\<forall>k'. distinct (dict_keys (stored_versions d k'))"
    for k vs and d :: "('a, ('b, ('d \<times> int) list) dict) dict"
    using that
  proof (induction vs arbitrary: d)
    case Nil
    then show ?case by simp
  next
    case (Cons x vs)
    obtain w data where x: "x = (w, data)" by (cases x) auto
    from wf_bag_extend [OF Cons.prems, of k w data] Cons.IH [of "bag_extend d k w data"]
    show ?case by (simp add: x)
  qed
  have outer_fold:
    "distinct (dict_keys (fold (\<lambda>(k, vs) d.
        fold (\<lambda>(w, data) d'. bag_extend d' k w data) vs d) items d)) \<and>
     (\<forall>k'. distinct (dict_keys (stored_versions (fold (\<lambda>(k, vs) d.
        fold (\<lambda>(w, data) d'. bag_extend d' k w data) vs d) items d) k')))"
    if "distinct (dict_keys d)" and "\<forall>k'. distinct (dict_keys (stored_versions d k'))"
    for items and d :: "('a, ('b, ('d \<times> int) list) dict) dict"
    using that
  proof (induction items arbitrary: d)
    case Nil
    then show ?case by simp
  next
    case (Cons x items)
    obtain k vs where x: "x = (k, vs)" by (cases x) auto
    from inner_fold [OF Cons.prems, of k vs]
      Cons.IH [of "fold (\<lambda>(w, data) d'. bag_extend d' k w data) vs d"]
    show ?case by (simp add: x)
  qed
  from assms outer_fold [of "inner self" "inner other"] show ?thesis
    by (simp add: wf_index_iff append_index_def)
qed

lemma dict_keys_compact_key:
  assumes "compact_key ord F key d = Inr d'"
  shows "dict_keys d' = (if key \<in> set (dict_keys d) then dict_keys d else dict_keys d @ [key])"
  using assms(1)
proof (rule compact_key_Inr)
  fix vs1 c vs2
  assume "d' = dict_setitem (snd (defaultdict_getitem [] d key)) key vs2"
  then show ?thesis
    by (simp add: dict_keys_dict_setitem dict_keys_getitem)
qed

lemma wf_compact_keys:
  assumes "for_each (compact_key ord F) keys d = Inr d'"
    and "distinct (dict_keys d)" and "\<forall>k. distinct (dict_keys (stored_versions d k))"
  shows "distinct (dict_keys d') \<and> (\<forall>k. distinct (dict_keys (stored_versions d' k)))"
  using assms
proof (induction keys arbitrary: d)
  case Nil
  then show ?case by simp
next
  case (Cons key keys)
  from Cons.prems(1) obtain d1
    where k1: "compact_key ord F key d = Inr d1"
      and rest: "for_each (compact_key ord F) keys d1 = Inr d'"
    by (auto split: sum.splits)
  have a: "distinct (dict_keys d1)"
    using Cons.prems(2) by (simp add: dict_keys_compact_key [OF k1])
  have b: "\<forall>k. distinct (dict_keys (stored_versions d1 k))"
  proof
    fix k
    show "distinct (dict_keys (stored_versions d1 k))"
      using compact_key_other [OF k1, of k] compact_key_versions(2) [OF k1] Cons.prems(3)
      by (cases "k = key") auto
  qed
  from Cons.IH [OF rest a b] show ?case .
qed

lemma wf_index_compact:
  assumes "compact ord self F keys = Inr self'" and "wf_index self"
  shows "wf_index self'"
proof -
  note c = compact_Inr [OF assms(1)]
  from wf_compact_keys [OF c(2)] assms(2) show ?thesis
    by (simp add: wf_index_iff)
qed

lemma wf_index_versions:
  assumes "wf_index self"
  shows "wf_index (snd (versions self key))"
  using assms stored_versions_vivify [of key "inner self"]
  by (auto simp: wf_index_iff versions_unfold dict_keys_def dict_contains_def)

section \<open>Reconstruction after an append\<close>

lemma bag_at_absent: "w \<notin> set (dict_keys vs) \<Longrightarrow> bag_at vs w = []"
  by (simp add: bag_at_def dict_keys_def map_of_eq_None_iff [symmetric])

lemma bag_at_Cons: "bag_at ((w, ys) # vs) w' = (if w' = w then ys else bag_at vs w')"
  by (simp add: bag_at_def)

lemma entries_at_bag_at: "entries_at d k w = bag_at (stored_versions d k) w"
  by (simp add: entries_at_def bag_at_def)

lemma map_bag_at_Cons_absent:
  "w \<notin> set (dict_keys d) \<Longrightarrow>
   map (\<lambda>(w', xs). (w', xs @ bag_at ((w, ys) # rest) w')) d
     = map (\<lambda>(w', xs). (w', xs @ bag_at rest w')) d"
  by (induction d) (auto simp: bag_at_Cons dict_keys_def)

lemma filter_absent_extra:
  "w \<notin> set (dict_keys rest) \<Longrightarrow>
   filter (\<lambda>(w', zs). w' \<notin> set (dict_keys (vsA @ [(w, ys)]))) rest
     = filter (\<lambda>(w', zs). w' \<notin> set (dict_keys vsA)) rest"
  by (induction rest) (auto simp: dict_keys_def)

lemma map_dict_setitem_present:
  assumes "distinct (dict_keys d)" and "map_of d w = Some l" and "w \<notin> set (dict_keys rest)"
  shows "map (\<lambda>(w', xs). (w', xs @ bag_at rest w')) (dict_setitem d w (l @ ys))
           = map (\<lambda>(w', xs). (w', xs @ bag_at ((w, ys) # rest) w')) d"
  using assms
proof (induction d)
  case Nil
  then show ?case by simp
next
  case (Cons p d)
  obtain w0 xs0 where p: "p = (w0, xs0)" by (cases p) auto
  show ?case
  proof (cases "w0 = w")
    case True
    with Cons.prems p have l: "l = xs0" and nd: "w \<notin> set (dict_keys d)"
      by (simp_all add: dict_keys_def)
    have "map (\<lambda>(w', xs). (w', xs @ bag_at ((w, ys) # rest) w')) d
            = map (\<lambda>(w', xs). (w', xs @ bag_at rest w')) d"
      using nd by (rule map_bag_at_Cons_absent)
    with True p l Cons.prems(3) show ?thesis
      by (simp add: bag_at_Cons bag_at_absent)
  next
    case False
    with Cons.prems p have "distinct (dict_keys d)" and "map_of d w = Some l"
      by (simp_all add: dict_keys_def)
    from Cons.IH [OF this Cons.prems(3)] False p show ?thesis
      by (simp add: bag_at_Cons)
  qed
qed

lemma appended_versions_step:
  assumes "distinct (dict_keys vsA)" and "w \<notin> set (dict_keys rest)"
  shows "appended_versions (defaultdict_extend vsA w ys) rest
           = appended_versions vsA ((w, ys) # rest)"
proof (cases "map_of vsA w")
  case None
  then have n: "w \<notin> set (dict_keys vsA)"
    by (simp add: dict_keys_def map_of_eq_None_iff)
  have m: "map (\<lambda>(w', xs). (w', xs @ bag_at ((w, ys) # rest) w')) vsA
            = map (\<lambda>(w', xs). (w', xs @ bag_at rest w')) vsA"
    using n by (rule map_bag_at_Cons_absent)
  have f: "filter (\<lambda>(w', zs). w' \<notin> set (dict_keys (vsA @ [(w, ys)]))) rest
            = filter (\<lambda>(w', zs). w' \<notin> set (dict_keys vsA)) rest"
    using assms(2) by (rule filter_absent_extra)
  show ?thesis
    using None n m f assms(2)
    by (simp add: appended_versions_def defaultdict_extend_unfold bag_at_absent)
next
  case (Some l)
  then have i: "w \<in> set (dict_keys vsA)"
    using map_of_eq_None_iff [of vsA w] by (simp add: dict_keys_def)
  have k: "dict_keys (dict_setitem vsA w (l @ ys)) = dict_keys vsA"
    using i by (simp add: dict_keys_dict_setitem)
  show ?thesis
    using Some i k map_dict_setitem_present [OF assms(1) Some assms(2), of ys]
    by (simp add: appended_versions_def defaultdict_extend_unfold)
qed

lemma extend_all_appended_versions:
  assumes "distinct (dict_keys vsA)" and "distinct (dict_keys vsB)"
  shows "fold (\<lambda>(w, data) vs'. defaultdict_extend vs' w data) vsB vsA
           = appended_versions vsA vsB"
  using assms
proof (induction vsB arbitrary: vsA)
  case Nil
  have "map (\<lambda>(w, xs). (w, xs @ bag_at [] w)) vsA = vsA"
    by (induction vsA) (auto simp: bag_at_def)
  then show ?case by (simp add: appended_versions_def)
next
  case (Cons p vsB)
  obtain w ys where p: "p = (w, ys)" by (cases p) auto
  from Cons.prems(2) have d: "distinct (dict_keys vsB)" and n: "w \<notin> set (dict_keys vsB)"
    by (simp_all add: p dict_keys_def)
  have e: "distinct (dict_keys (defaultdict_extend vsA w ys))"
    using Cons.prems(1) by (simp add: dict_keys_defaultdict_extend)
  show ?case
    using Cons.IH [OF e d] appended_versions_step [OF Cons.prems(1) n]
    by (simp add: p)
qed

lemma bag_at_appended_versions:
  assumes "distinct (dict_keys vsA)"
  shows "bag_at (appended_versions vsA vsB) w = bag_at vsA w @ bag_at vsB w"
proof (cases "map_of vsA w")
  case None
  then have n: "w \<notin> set (dict_keys vsA)"
    by (simp add: dict_keys_def map_of_eq_None_iff)
  have a: "map_of (map (\<lambda>(w, xs). (w, xs @ bag_at vsB w)) vsA) w = None"
    using n by (simp add: map_of_eq_None_iff dict_keys_def image_iff split_beta)
  have b: "map_of (filter (\<lambda>(w', ys). w' \<notin> set (dict_keys vsA)) vsB) w = map_of vsB w"
    using n by (induction vsB) auto
  show ?thesis
    using None a b
    by (simp add: bag_at_def appended_versions_def map_of_append map_add_def)
next
  case (Some l)
  then have "map_of (map (\<lambda>(w, xs). (w, xs @ bag_at vsB w)) vsA) w = Some (l @ bag_at vsB w)"
    by (induction vsA) (auto split: if_splits)
  with Some show ?thesis
    by (simp add: bag_at_def appended_versions_def map_of_append map_add_def)
qed

lemma append_index_exact:
  assumes "wf_index A" and "wf_index B"
  shows "stored_versions (inner (append_index A B)) key
           = appended_versions (stored_versions (inner A) key) (stored_versions (inner B) key)"
proof -
  have b: "distinct (dict_keys (inner B))" using assms(2) by (simp add: wf_index_def)
  have "inner (append_index A B)
          = fold (\<lambda>(k, vs) d. fold (\<lambda>(w, data) d'. bag_extend d' k w data) vs d)
                 (inner B) (inner A)"
    by (simp add: append_index_def)
  then have "stored_versions (inner (append_index A B)) key
          = fold (\<lambda>(w, data) vs'. defaultdict_extend vs' w data)
              (stored_versions (inner B) key) (stored_versions (inner A) key)"
    using stored_versions_append_index [OF b] by simp
  also have "\<dots> = appended_versions (stored_versions (inner A) key)
                      (stored_versions (inner B) key)"
    using wf_index_stored_versions [OF assms(1)] wf_index_stored_versions [OF assms(2)]
    by (rule extend_all_appended_versions)
  finally show ?thesis .
qed

lemma append_index_reconstruct_exact:
  assumes "wf_index A" and "wf_index B" and "validate ord A (Version v) = Inr ()"
  shows "\<exists>C. reconstruct_at ord (append_index A B) key v
                = Inr (appended_up_to ord A B key v, C)"
  using assms(3)
  by (simp add: reconstruct_at_unfold validate_append_index append_index_exact [OF assms(1,2)]
      appended_up_to_def)

lemma append_index_entries_at:
  assumes "wf_index A" and "wf_index B"
  shows "entries_at (inner (append_index A B)) k w
           = entries_at (inner A) k w @ entries_at (inner B) k w"
  using wf_index_stored_versions [OF assms(1), of k]
  by (simp add: entries_at_bag_at append_index_exact [OF assms] bag_at_appended_versions)

text \<open>
  Claim C6, amended. For well-formed indexes \<open>A\<close> and \<open>B\<close> whose reconstructions at a key
  and version return \<open>ra\<close> and \<open>rb\<close>, the reconstruction after \<^verbatim>\<open>A.append(B)\<close> returns
  the entries grouped by version: the versions \<open>A\<close> holds under the key that are below
  the requested one, in the order of \<open>A\<close>, each with the entries of \<open>A\<close> followed by the
  entries of \<open>B\<close> at that version, then the versions only \<open>B\<close> holds, in the order of
  \<open>B\<close>. This sequence has the same entries as \<open>ra @ rb\<close>, each as many times, and under
  every key and version the bag after the append is the bag of \<open>A\<close> followed by the bag
  of \<open>B\<close>. It holds for the indexes as they are after the two reconstructions and for
  the indexes as they were before.
\<close>

theorem append_reconstruct_at:
  assumes "wf_index A" and "wf_index B"
    and "reconstruct_at ord A key v = Inr (ra, A')"
    and "reconstruct_at ord B key v = Inr (rb, B')"
  shows "(\<exists>C. reconstruct_at ord (append_index A' B') key v
                 = Inr (appended_up_to ord A B key v, C)) \<and>
         (\<exists>C. reconstruct_at ord (append_index A B) key v
                 = Inr (appended_up_to ord A B key v, C)) \<and>
         mset (appended_up_to ord A B key v) = mset ra + mset rb \<and>
         (\<forall>k w. entries_at (inner (append_index A' B')) k w
                  = entries_at (inner A) k w @ entries_at (inner B) k w) \<and>
         (\<forall>k w. entries_at (inner (append_index A B)) k w
                  = entries_at (inner A) k w @ entries_at (inner B) k w)"
proof -
  note a = reconstruct_at_Inr [OF assms(3)]
  note b = reconstruct_at_Inr [OF assms(4)]
  note ka = reconstruct_at_state [OF assms(3)]
  note kb = reconstruct_at_state [OF assms(4)]
  have wa: "wf_index A'" using wf_index_versions [OF assms(1), of key] ka by simp
  have wb: "wf_index B'" using wf_index_versions [OF assms(2), of key] kb by simp
  have va: "validate ord A' (Version v) = Inr ()"
    using a(1) ka by (simp add: validate_def)
  have same: "appended_up_to ord A' B' key v = appended_up_to ord A B key v"
    using ka kb by (simp add: appended_up_to_def)
  have e1: "\<exists>C. reconstruct_at ord (append_index A' B') key v
                 = Inr (appended_up_to ord A B key v, C)"
    using append_index_reconstruct_exact [OF wa wb va, of key] same by simp
  have e2: "\<exists>C. reconstruct_at ord (append_index A B) key v
                 = Inr (appended_up_to ord A B key v, C)"
    using append_index_reconstruct_exact [OF assms(1,2) a(1), of key] .
  have db: "distinct (dict_keys (inner B))" using assms(2) by (simp add: wf_index_def)
  from append_reconstruct_mset [OF db a(1), of key] e2
  have m: "mset (appended_up_to ord A B key v) = mset ra + mset rb"
    by (auto simp: a(2) b(2))
  have p1: "\<forall>k w. entries_at (inner (append_index A' B')) k w
                  = entries_at (inner A) k w @ entries_at (inner B) k w"
    using append_index_entries_at [OF wa wb] ka kb by simp
  have p2: "\<forall>k w. entries_at (inner (append_index A B)) k w
                  = entries_at (inner A) k w @ entries_at (inner B) k w"
    using append_index_entries_at [OF assms(1,2)] by simp
  from e1 e2 m p1 p2 show ?thesis by blast
qed

theorem append_reconstruct_at_witness:
  "wf_index (\<lparr>inner = [(''k'', [([1], [(10, 1), (11, 1)]), ([2], [(20, 1)])])],
       compaction_frontier = None\<rparr> :: (string, nat list, nat list list, nat) Index) \<and>
   wf_index (\<lparr>inner = [(''k'', [([0], [(40, 1)]), ([1], [(30, 1), (31, 1)])])],
       compaction_frontier = None\<rparr> :: (string, nat list, nat list list, nat) Index) \<and>
   reconstruct_at vec_order
     (\<lparr>inner = [(''k'', [([1], [(10, 1), (11, 1)]), ([2], [(20, 1)])])],
       compaction_frontier = None\<rparr> :: (string, nat list, nat list list, nat) Index) ''k'' [2]
     = Inr ([(10, 1), (11, 1), (20, 1)],
            \<lparr>inner = [(''k'', [([1], [(10, 1), (11, 1)]), ([2], [(20, 1)])])],
              compaction_frontier = None\<rparr>) \<and>
   reconstruct_at vec_order
     (\<lparr>inner = [(''k'', [([0], [(40, 1)]), ([1], [(30, 1), (31, 1)])])],
       compaction_frontier = None\<rparr> :: (string, nat list, nat list list, nat) Index) ''k'' [2]
     = Inr ([(40, 1), (30, 1), (31, 1)],
            \<lparr>inner = [(''k'', [([0], [(40, 1)]), ([1], [(30, 1), (31, 1)])])],
              compaction_frontier = None\<rparr>) \<and>
   appended_up_to vec_order
     (\<lparr>inner = [(''k'', [([1], [(10, 1), (11, 1)]), ([2], [(20, 1)])])],
       compaction_frontier = None\<rparr> :: (string, nat list, nat list list, nat) Index)
     \<lparr>inner = [(''k'', [([0], [(40, 1)]), ([1], [(30, 1), (31, 1)])])],
       compaction_frontier = None\<rparr> ''k'' [2]
     = [(10, 1), (11, 1), (30, 1), (31, 1), (20, 1), (40, 1)] \<and>
   (\<exists>C. reconstruct_at vec_order
       (append_index
         (\<lparr>inner = [(''k'', [([1], [(10, 1), (11, 1)]), ([2], [(20, 1)])])],
           compaction_frontier = None\<rparr> :: (string, nat list, nat list list, nat) Index)
         \<lparr>inner = [(''k'', [([0], [(40, 1)]), ([1], [(30, 1), (31, 1)])])],
           compaction_frontier = None\<rparr>) ''k'' [2]
       = Inr ([(10, 1), (11, 1), (30, 1), (31, 1), (20, 1), (40, 1)], C))"
proof -
  let ?A = "\<lparr>inner = [(''k'', [([1], [(10, 1), (11, 1)]), ([2], [(20, 1)])])],
       compaction_frontier = None\<rparr> :: (string, nat list, nat list list, nat) Index"
  let ?B = "\<lparr>inner = [(''k'', [([0], [(40, 1)]), ([1], [(30, 1), (31, 1)])])],
       compaction_frontier = None\<rparr> :: (string, nat list, nat list list, nat) Index"
  have wa: "wf_index ?A" by code_simp
  have wb: "wf_index ?B" by code_simp
  have a: "reconstruct_at vec_order ?A ''k'' [2] = Inr ([(10, 1), (11, 1), (20, 1)], ?A)"
    by code_simp
  have b: "reconstruct_at vec_order ?B ''k'' [2] = Inr ([(40, 1), (30, 1), (31, 1)], ?B)"
    by code_simp
  have u: "appended_up_to vec_order ?A ?B ''k'' [2]
             = [(10, 1), (11, 1), (30, 1), (31, 1), (20, 1), (40, 1)]"
    by code_simp
  from append_reconstruct_at [OF wa wb a b] have
    "\<exists>C. reconstruct_at vec_order (append_index ?A ?B) ''k'' [2]
            = Inr (appended_up_to vec_order ?A ?B ''k'' [2], C)"
    by blast
  with wa wb a b u show ?thesis by simp
qed

text \<open>
  Claim C6 as stated fails: with \<open>A\<close> holding \<open>(10, 1)\<close> at \<open>[1]\<close> and \<open>(20, 1)\<close> at
  \<open>[2]\<close>, and \<open>B\<close> holding \<open>(30, 1)\<close> at \<open>[1]\<close>, the reconstruction at \<open>[2]\<close> after the
  append is \<open>[(10, 1), (30, 1), (20, 1)]\<close>, not the concatenation of the two
  reconstructions.
\<close>

theorem append_reconstruct_at_order_counterexample:
  "reconstruct_at vec_order
     (\<lparr>inner = [(''k'', [([1], [(10, 1)]), ([2], [(20, 1)])])], compaction_frontier = None\<rparr>
       :: (string, nat list, nat list list, nat) Index) ''k'' [2]
     = Inr ([(10, 1), (20, 1)],
            \<lparr>inner = [(''k'', [([1], [(10, 1)]), ([2], [(20, 1)])])],
              compaction_frontier = None\<rparr>) \<and>
   reconstruct_at vec_order
     (\<lparr>inner = [(''k'', [([1], [(30, 1)])])], compaction_frontier = None\<rparr>
       :: (string, nat list, nat list list, nat) Index) ''k'' [2]
     = Inr ([(30, 1)], \<lparr>inner = [(''k'', [([1], [(30, 1)])])], compaction_frontier = None\<rparr>) \<and>
   append_index
     (\<lparr>inner = [(''k'', [([1], [(10, 1)]), ([2], [(20, 1)])])], compaction_frontier = None\<rparr>
       :: (string, nat list, nat list list, nat) Index)
     \<lparr>inner = [(''k'', [([1], [(30, 1)])])], compaction_frontier = None\<rparr>
     = \<lparr>inner = [(''k'', [([1], [(10, 1), (30, 1)]), ([2], [(20, 1)])])],
         compaction_frontier = None\<rparr> \<and>
   reconstruct_at vec_order
     (\<lparr>inner = [(''k'', [([1], [(10, 1), (30, 1)]), ([2], [(20, 1)])])],
       compaction_frontier = None\<rparr> :: (string, nat list, nat list list, nat) Index) ''k'' [2]
     = Inr ([(10, 1), (30, 1), (20, 1)],
            \<lparr>inner = [(''k'', [([1], [(10, 1), (30, 1)]), ([2], [(20, 1)])])],
              compaction_frontier = None\<rparr>) \<and>
   [(10::nat, 1::int), (30, 1), (20, 1)] \<noteq> [(10, 1), (20, 1)] @ [(30, 1)]"
  by code_simp

end
